theory Spec2Isabelle
  imports Main "HOL-Library.AList" "HOL-Library.Sublist" "HOL-Library.Char_ord"
    "HOL-Library.List_Lexorder"
begin

section \<open>Paths\<close>

text \<open>
  The driver in \<^verbatim>\<open>main.go\<close> builds every path it hands to the operating system with
  \<^verbatim>\<open>filepath.Join\<close> and string concatenation (\<^verbatim>\<open>resource+".json"\<close>,
  \<^verbatim>\<open>fnlPath + ".tmp"\<close>, \<^verbatim>\<open>dir + ".json"\<close>). Paths are therefore strings, with
  \<^verbatim>\<open>/\<close> as the separator (the Unix build of the Go library).
\<close>

type_synonym path = string

definition Separator :: char where
  "Separator = CHR ''/''"

text \<open>\<^verbatim>\<open>strings.Split(p, "/")\<close>: the pieces between separators; never the empty list.\<close>

fun splitc :: "string \<Rightarrow> string list" where
  "splitc [] = [[]]"
| "splitc (x # xs) =
     (if x = Separator then [] # splitc xs
      else (case splitc xs of [] \<Rightarrow> [[x]] | w # ws \<Rightarrow> (x # w) # ws))"

text \<open>\<^verbatim>\<open>strings.Join(elems, "/")\<close>.\<close>

fun joinc :: "string list \<Rightarrow> string" where
  "joinc [] = []"
| "joinc [c] = c"
| "joinc (c # d # cs) = c @ Separator # joinc (d # cs)"

definition rooted :: "path \<Rightarrow> bool" where
  "rooted p = (case p of [] \<Rightarrow> False | x # _ \<Rightarrow> x = Separator)"

text \<open>
  \<^verbatim>\<open>filepath.Clean\<close>, by the four rules of its documentation: separators collapse and
  \<^verbatim>\<open>.\<close> elements disappear (an empty or \<^verbatim>\<open>.\<close> piece is skipped), an inner \<^verbatim>\<open>..\<close>
  cancels the ordinary element before it, a \<^verbatim>\<open>..\<close> at the beginning of a rooted path is
  dropped and one at the beginning of a relative path is kept. The elements kept so far
  are a stack, most recent first. An empty result is \<^verbatim>\<open>.\<close> (\<^verbatim>\<open>/\<close> when rooted).
\<close>

definition clean_step :: "bool \<Rightarrow> string list \<Rightarrow> string \<Rightarrow> string list" where
  "clean_step r st c =
     (if c = [] \<or> c = ''.'' then st
      else if c = ''..'' then
        (case st of
           [] \<Rightarrow> if r then [] else [''..'']
         | t # ts \<Rightarrow> if t = ''..'' then c # t # ts else ts)
      else c # st)"

definition clean_comps :: "bool \<Rightarrow> string list \<Rightarrow> string list" where
  "clean_comps r cs = rev (foldl (clean_step r) [] cs)"

definition render :: "bool \<Rightarrow> string list \<Rightarrow> path" where
  "render r cs =
     (if cs = [] then (if r then ''/'' else ''.'')
      else (if r then ''/'' else []) @ joinc cs)"

definition Clean :: "path \<Rightarrow> path" where
  "Clean p = render (rooted p) (clean_comps (rooted p) (splitc p))"

text \<open>
  \<^verbatim>\<open>filepath.Join\<close>: leading empty elements are ignored, the rest is joined with the
  separator and cleaned; the result is empty when every element is empty.
\<close>

definition Join :: "string list \<Rightarrow> path" where
  "Join elem =
     (case dropWhile (\<lambda>e. e = []) elem of
        [] \<Rightarrow> []
      | e # es \<Rightarrow> Clean (joinc (e # es)))"

text \<open>
  How the kernel walks a path: from the root for a rooted path, from the working
  directory otherwise; an empty piece and \<^verbatim>\<open>.\<close> stay, \<^verbatim>\<open>..\<close> goes to the parent
  (the root is its own parent), any other piece goes down. The result is the list of
  names from the root to the entry. The walk is lexical: it agrees with the kernel on
  the paths the driver produces (cleaned, with at most a suffix appended to the last
  element) as long as no entry is a symbolic link.
\<close>

definition os_step :: "string list \<Rightarrow> string \<Rightarrow> string list" where
  "os_step st c =
     (if c = [] \<or> c = ''.'' then st
      else if c = ''..'' then tl st
      else c # st)"

definition resolve :: "string list \<Rightarrow> path \<Rightarrow> string list" where
  "resolve wd p = rev (foldl os_step (if rooted p then [] else rev wd) (splitc p))"

text \<open>An ordinary element: a name an entry of a directory can have.\<close>

definition ordinary :: "string \<Rightarrow> bool" where
  "ordinary c = (c \<noteq> [] \<and> c \<noteq> ''.'' \<and> c \<noteq> ''..'' \<and> Separator \<notin> set c)"


text \<open>
  The shape of the element stack that \<open>clean_step\<close> maintains: no piece is empty,
  \<^verbatim>\<open>.\<close> or contains a separator, and a \<^verbatim>\<open>..\<close> only sits on other \<^verbatim>\<open>..\<close>s, in a
  relative path.
\<close>

definition piece_ok :: "string \<Rightarrow> bool" where
  "piece_ok c = (c \<noteq> [] \<and> c \<noteq> ''.'' \<and> Separator \<notin> set c)"

fun stk_ok :: "bool \<Rightarrow> string list \<Rightarrow> bool" where
  "stk_ok r [] = True"
| "stk_ok r (t # ts) =
     (piece_ok t \<and> (t = ''..'' \<longrightarrow> \<not> r \<and> set ts \<subseteq> {''..''}) \<and> stk_ok r ts)"

text \<open>Where the walk stands before the last piece of a path.\<close>

definition parent_of :: "string list \<Rightarrow> path \<Rightarrow> string list" where
  "parent_of wd q =
     rev (foldl os_step (if rooted q then [] else rev wd) (butlast (splitc q)))"

section \<open>The file system\<close>

text \<open>
  What \<^verbatim>\<open>os.Stat\<close>, \<^verbatim>\<open>os.MkdirAll\<close>, \<^verbatim>\<open>os.WriteFile\<close>, \<^verbatim>\<open>os.Rename\<close>,
  \<^verbatim>\<open>os.RemoveAll\<close>, \<^verbatim>\<open>os.ReadFile\<close> and \<^verbatim>\<open>os.ReadDir\<close> act on: a tree whose
  inner nodes are directories (their entries in a list of name and node), whose leaves
  are regular files with their bytes, or entries that are neither (a socket, say, which
  \<^verbatim>\<open>open(2)\<close> refuses with \<^verbatim>\<open>ENXIO\<close>), together with the working directory of
  the process. Permissions, links, quotas and device errors are not part of the model:
  a call fails exactly when the shape of the tree makes it fail.
\<close>

datatype node = File string | Dir "(string \<times> node) list" | Irregular

datatype errno = ENOENT | ENOTDIR | EISDIR | EINVAL | ENXIO | ENOTEMPTY | EBUSY

record filesystem =
  tree :: node
  cwd :: "string list"

definition IsDir :: "node \<Rightarrow> bool" where
  "IsDir n = (case n of Dir _ \<Rightarrow> True | _ \<Rightarrow> False)"

definition IsRegular :: "node \<Rightarrow> bool" where
  "IsRegular n = (case n of File _ \<Rightarrow> True | _ \<Rightarrow> False)"

fun lookup :: "node \<Rightarrow> string list \<Rightarrow> errno + node" where
  "lookup n [] = Inr n"
| "lookup n (c # cs) =
     (case n of
        Dir es \<Rightarrow> (case map_of es c of None \<Rightarrow> Inl ENOENT | Some m \<Rightarrow> lookup m cs)
      | _ \<Rightarrow> Inl ENOTDIR)"

text \<open>Every missing directory on the way is created; a non-directory in the way is an error.\<close>

fun mkdirAll :: "node \<Rightarrow> string list \<Rightarrow> errno + node" where
  "mkdirAll n [] = (case n of Dir _ \<Rightarrow> Inr n | _ \<Rightarrow> Inl ENOTDIR)"
| "mkdirAll n (c # cs) =
     (case n of
        Dir es \<Rightarrow>
          (case mkdirAll (case map_of es c of None \<Rightarrow> Dir [] | Some m \<Rightarrow> m) cs of
             Inl e \<Rightarrow> Inl e
           | Inr m' \<Rightarrow> Inr (Dir (AList.update c m' es)))
      | _ \<Rightarrow> Inl ENOTDIR)"

text \<open>Placing a node at an address whose parent directory exists (new entry or replacement).\<close>

fun put :: "node \<Rightarrow> string list \<Rightarrow> node \<Rightarrow> errno + node" where
  "put t [] n = Inr n"
| "put t (c # cs) n =
     (case t of
        Dir es \<Rightarrow>
          (case map_of es c of
             None \<Rightarrow> if cs = [] then Inr (Dir (AList.update c n es)) else Inl ENOENT
           | Some m \<Rightarrow>
               (case put m cs n of
                  Inl e \<Rightarrow> Inl e
                | Inr m' \<Rightarrow> Inr (Dir (AList.update c m' es))))
      | _ \<Rightarrow> Inl ENOTDIR)"

text \<open>Removing the entry at an address, with everything below it.\<close>

fun del :: "node \<Rightarrow> string list \<Rightarrow> node" where
  "del t [] = t"
| "del t [c] = (case t of Dir es \<Rightarrow> Dir (AList.delete c es) | _ \<Rightarrow> t)"
| "del t (c # cs) =
     (case t of
        Dir es \<Rightarrow>
          (case map_of es c of
             None \<Rightarrow> t
           | Some m \<Rightarrow> Dir (AList.update c (del m cs) es))
      | _ \<Rightarrow> t)"

text \<open>\<^verbatim>\<open>os.Stat\<close>: the \<^verbatim>\<open>FileInfo\<close> is the node itself; the empty path does not exist.\<close>

definition os_Stat :: "filesystem \<Rightarrow> path \<Rightarrow> errno + node" where
  "os_Stat fs p = (if p = [] then Inl ENOENT else lookup (tree fs) (resolve (cwd fs) p))"

definition os_MkdirAll :: "filesystem \<Rightarrow> path \<Rightarrow> errno option \<times> filesystem" where
  "os_MkdirAll fs p =
     (if p = [] then (Some ENOENT, fs)
      else case mkdirAll (tree fs) (resolve (cwd fs) p) of
             Inl e \<Rightarrow> (Some e, fs)
           | Inr t \<Rightarrow> (None, fs\<lparr>tree := t\<rparr>))"

text \<open>
  \<^verbatim>\<open>os.WriteFile\<close> creates the file or truncates and rewrites a regular file. A write
  that stops half way (a full disk) is outside the model.
\<close>

definition os_WriteFile :: "filesystem \<Rightarrow> path \<Rightarrow> string \<Rightarrow> errno option \<times> filesystem" where
  "os_WriteFile fs p data =
     (if p = [] then (Some ENOENT, fs)
      else case lookup (tree fs) (resolve (cwd fs) p) of
             Inr n \<Rightarrow>
               (case n of
                  Dir _ \<Rightarrow> (Some EISDIR, fs)
                | Irregular \<Rightarrow> (Some ENXIO, fs)
                | File _ \<Rightarrow>
                    (case put (tree fs) (resolve (cwd fs) p) (File data) of
                       Inl e \<Rightarrow> (Some e, fs)
                     | Inr t \<Rightarrow> (None, fs\<lparr>tree := t\<rparr>)))
           | Inl e \<Rightarrow>
               if e = ENOENT then
                 (case put (tree fs) (resolve (cwd fs) p) (File data) of
                    Inl e' \<Rightarrow> (Some e', fs)
                  | Inr t \<Rightarrow> (None, fs\<lparr>tree := t\<rparr>))
               else (Some e, fs))"

definition os_ReadFile :: "filesystem \<Rightarrow> path \<Rightarrow> errno + string" where
  "os_ReadFile fs p =
     (if p = [] then Inl ENOENT
      else case lookup (tree fs) (resolve (cwd fs) p) of
             Inl e \<Rightarrow> Inl e
           | Inr n \<Rightarrow>
               (case n of File b \<Rightarrow> Inr b | Dir _ \<Rightarrow> Inl EISDIR | Irregular \<Rightarrow> Inl ENXIO))"

text \<open>\<^verbatim>\<open>os.ReadDir\<close> returns the entries of a directory sorted by file name.\<close>

definition os_ReadDir :: "filesystem \<Rightarrow> path \<Rightarrow> errno + string list" where
  "os_ReadDir fs p =
     (if p = [] then Inl ENOENT
      else case lookup (tree fs) (resolve (cwd fs) p) of
             Inl e \<Rightarrow> Inl e
           | Inr n \<Rightarrow> (case n of Dir es \<Rightarrow> Inr (sort (map fst es)) | _ \<Rightarrow> Inl ENOTDIR))"

text \<open>
  \<^verbatim>\<open>rename(2)\<close>: the source must exist; a directory is not moved below itself; a
  non-directory does not replace a directory, a directory replaces only an empty
  directory; the parent of the target must exist. On success the node moves in one step.
\<close>

definition rename_check :: "node \<Rightarrow> errno + node \<Rightarrow> errno option" where
  "rename_check n target =
     (case target of
        Inl e \<Rightarrow> if e = ENOENT then None else Some e
      | Inr m \<Rightarrow>
          if IsDir n then
            (case m of Dir es \<Rightarrow> if es = [] then None else Some ENOTEMPTY | _ \<Rightarrow> Some ENOTDIR)
          else if IsDir m then Some EISDIR else None)"

definition os_Rename :: "filesystem \<Rightarrow> path \<Rightarrow> path \<Rightarrow> errno option \<times> filesystem" where
  "os_Rename fs oldpath newpath =
     (if oldpath = [] \<or> newpath = [] then (Some ENOENT, fs)
      else
        let co = resolve (cwd fs) oldpath; cn = resolve (cwd fs) newpath in
        case lookup (tree fs) co of
          Inl e \<Rightarrow> (Some e, fs)
        | Inr n \<Rightarrow>
            if co = cn then (None, fs)
            else if IsDir n \<and> prefix co cn then (Some EINVAL, fs)
            else
              (case rename_check n (lookup (tree fs) cn) of
                 Some e \<Rightarrow> (Some e, fs)
               | None \<Rightarrow>
                   (case put (del (tree fs) co) cn n of
                      Inl e \<Rightarrow> (Some e, fs)
                    | Inr t \<Rightarrow> (None, fs\<lparr>tree := t\<rparr>))))"

text \<open>
  \<^verbatim>\<open>os.RemoveAll\<close> (Go's \<^verbatim>\<open>os/removeall_at.go\<close>): the empty path is silently accepted;
  a path whose last element is \<^verbatim>\<open>.\<close> is refused with \<^verbatim>\<open>EINVAL\<close> (\<^verbatim>\<open>endsWithDot\<close>);
  a path that does not exist is no error; otherwise the entry goes with everything
  below it. Of the root directory and of a path ending in \<^verbatim>\<open>..\<close> only the content can
  go, since \<^verbatim>\<open>rmdir(2)\<close> refuses the directory itself, and the call reports that error.
\<close>

definition endsWithDot :: "path \<Rightarrow> bool" where
  "endsWithDot p =
     (p = ''.'' \<or> (2 \<le> length p \<and> drop (length p - 2) p = [Separator, CHR ''.'']))"

definition os_RemoveAll :: "filesystem \<Rightarrow> path \<Rightarrow> errno option \<times> filesystem" where
  "os_RemoveAll fs p =
     (if p = [] then (None, fs)
      else if endsWithDot p then (Some EINVAL, fs)
      else
        let cs = resolve (cwd fs) p in
        case lookup (tree fs) cs of
          Inl e \<Rightarrow> (if e = ENOENT then None else Some e, fs)
        | Inr n \<Rightarrow>
            if cs = [] \<or> last (splitc p) = ''..'' then
              (case n of
                 Dir _ \<Rightarrow>
                   (case put (tree fs) cs (Dir []) of
                      Inl e \<Rightarrow> (Some e, fs)
                    | Inr t \<Rightarrow> (Some (if cs = [] then EBUSY else ENOTEMPTY), fs\<lparr>tree := t\<rparr>))
               | _ \<Rightarrow> (Some ENOTDIR, fs))
            else (None, fs\<lparr>tree := del (tree fs) cs\<rparr>))"

text \<open>The bytes of the regular file at an address, if there is one.\<close>

definition file_at :: "node \<Rightarrow> string list \<Rightarrow> string option" where
  "file_at t cs =
     (case lookup t cs of
        Inl _ \<Rightarrow> None
      | Inr n \<Rightarrow> (case n of File b \<Rightarrow> Some b | _ \<Rightarrow> None))"

definition file_bytes :: "filesystem \<Rightarrow> path \<Rightarrow> string option" where
  "file_bytes fs p = (case os_ReadFile fs p of Inl _ \<Rightarrow> None | Inr b \<Rightarrow> Some b)"

section \<open>The driver\<close>

text \<open>
  \<^verbatim>\<open>main.go\<close>, lines 24 to 29. The field \<^verbatim>\<open>mutexes\<close> maps a collection name to the
  address of its \<^verbatim>\<open>sync.Mutex\<close>. The field \<^verbatim>\<open>mutex\<close> is declared and never used by
  any function of the file, and \<^verbatim>\<open>log\<close> is only written to; neither has a part in what
  the operations return.
\<close>

record Driver =
  mutexes :: "string \<rightharpoonup> nat"
  dir :: string

text \<open>
  What a call of a method of \<^verbatim>\<open>*Driver\<close> can read and change: the driver it points
  to, the allocator (the number of mutexes allocated so far is the next fresh address)
  and the file system.
\<close>

record world =
  driver :: Driver
  heap :: nat
  disk :: filesystem

text \<open>
  The errors of the driver: \<^verbatim>\<open>fmt.Errorf\<close> with its message, the \<^verbatim>\<open>*PathError\<close> and
  \<^verbatim>\<open>*LinkError\<close> of package \<^verbatim>\<open>os\<close>, and whatever \<^verbatim>\<open>encoding/json\<close> reports.
\<close>

datatype error = Errorf string | PathError errno | LinkError errno | JSONError string

definition tab :: char where
  "tab = CHR 0x09"

definition newline :: char where
  "newline = CHR 0x0A"

text \<open>\<^verbatim>\<open>getOrCreateMutex\<close>, lines 149 to 156. No lock is taken around the map.\<close>

definition getOrCreateMutex :: "string \<Rightarrow> world \<Rightarrow> nat \<times> world" where
  "getOrCreateMutex collection w =
     (case mutexes (driver w) collection of
        Some m \<Rightarrow> (m, w)
      | None \<Rightarrow>
          (heap w,
           w\<lparr>driver := (driver w)\<lparr>mutexes := (mutexes (driver w))(collection \<mapsto> heap w)\<rparr>,
              heap := Suc (heap w)\<rparr>))"

text \<open>\<^verbatim>\<open>stat\<close>, lines 158 to 168. Both results can be \<^verbatim>\<open>nil\<close>.\<close>

definition stat :: "filesystem \<Rightarrow> path \<Rightarrow> node option \<times> errno option" where
  "stat fs path =
     (case os_Stat fs path of
        Inr fi \<Rightarrow> (Some fi, None)
      | Inl err \<Rightarrow>
          if err = ENOENT then
            (case os_Stat fs (path @ ''.json'') of
               Inl err' \<Rightarrow> (None, Some err')
             | Inr fi \<Rightarrow> (Some fi, None))
          else (None, None))"

text \<open>The paths \<^verbatim>\<open>Write\<close> computes (lines 71 to 73).\<close>

definition fnlPath :: "Driver \<Rightarrow> string \<Rightarrow> string \<Rightarrow> path" where
  "fnlPath d collection resource = Join [Join [dir d, collection], resource @ ''.json'']"

definition tmpPath :: "Driver \<Rightarrow> string \<Rightarrow> string \<Rightarrow> path" where
  "tmpPath d collection resource = fnlPath d collection resource @ ''.tmp''"

text \<open>
  \<^verbatim>\<open>Write\<close>, lines 60 to 89. The encoder \<^verbatim>\<open>json.MarshalIndent\<close> is a parameter: it
  takes the value, the prefix and the indentation. In a run of one goroutine
  \<^verbatim>\<open>mutex.Lock()\<close> finds the mutex free and the deferred \<^verbatim>\<open>Unlock\<close> frees it again
  before the call returns, so the lock leaves no trace in the result.
\<close>

definition Write ::
  "('v \<Rightarrow> string \<Rightarrow> string \<Rightarrow> error + string) \<Rightarrow> string \<Rightarrow> string \<Rightarrow> 'v \<Rightarrow> world
     \<Rightarrow> error option \<times> world" where
  "Write MarshalIndent collection resource v w =
     (if collection = [] then
        (Some (Errorf ''Missing collection - no place to save record!''), w)
      else if resource = [] then
        (Some (Errorf ''Missing resource - no place to save record (no name)''), w)
      else
        let w1 = snd (getOrCreateMutex collection w);
            d = driver w1
        in
        case MarshalIndent v [] [tab] of
          Inl err \<Rightarrow> (Some err, w1)
        | Inr b \<Rightarrow>
            (case os_MkdirAll (disk w1) (Join [dir d, collection]) of
               (Some err, fs1) \<Rightarrow> (Some (PathError err), w1\<lparr>disk := fs1\<rparr>)
             | (None, fs1) \<Rightarrow>
                 (case os_WriteFile fs1 (tmpPath d collection resource) (b @ [newline]) of
                    (Some err, fs2) \<Rightarrow> (Some (PathError err), w1\<lparr>disk := fs2\<rparr>)
                  | (None, fs2) \<Rightarrow>
                      (case os_Rename fs2 (tmpPath d collection resource)
                              (fnlPath d collection resource) of
                         (Some err, fs3) \<Rightarrow> (Some (LinkError err), w1\<lparr>disk := fs3\<rparr>)
                       | (None, fs3) \<Rightarrow> (None, w1\<lparr>disk := fs3\<rparr>)))))"

text \<open>\<^verbatim>\<open>Delete\<close>, lines 91 to 109.\<close>

definition Delete_path :: "string \<Rightarrow> string \<Rightarrow> path" where
  "Delete_path collection resource = Join [collection, resource]"

definition Delete_dir :: "Driver \<Rightarrow> string \<Rightarrow> string \<Rightarrow> path" where
  "Delete_dir d collection resource = Join [dir d, Delete_path collection resource]"

definition Delete :: "string \<Rightarrow> string \<Rightarrow> world \<Rightarrow> error option \<times> world" where
  "Delete collection resource w =
     (let w1 = snd (getOrCreateMutex collection w);
          target = Delete_dir (driver w1) collection resource
      in
      case stat (disk w1) target of
        (None, err) \<Rightarrow>
          (Some (Errorf (''unable to find file/directory name '' @ Delete_path collection resource)), w1)
      | (Some fi, err) \<Rightarrow>
          if err \<noteq> None then
            (Some (Errorf (''unable to find file/directory name '' @ Delete_path collection resource)), w1)
          else if IsDir fi then
            (case os_RemoveAll (disk w1) target of
               (e, fs) \<Rightarrow> (map_option PathError e, w1\<lparr>disk := fs\<rparr>))
          else if IsRegular fi then
            (case os_RemoveAll (disk w1) (target @ ''.json'') of
               (e, fs) \<Rightarrow> (map_option PathError e, w1\<lparr>disk := fs\<rparr>))
          else (None, w1))"

text \<open>
  \<^verbatim>\<open>Read\<close>, lines 110 to 126. The decoder \<^verbatim>\<open>json.Unmarshal\<close> is a parameter: from
  the bytes and the value the caller's pointer holds it gives the value stored there.
  \<^verbatim>\<open>Read\<close> takes no lock and changes nothing.
\<close>

definition record_path :: "Driver \<Rightarrow> string \<Rightarrow> string \<Rightarrow> path" where
  "record_path d collection resource = Join [dir d, collection, resource]"

definition Read ::
  "(string \<Rightarrow> 'v \<Rightarrow> error + 'v) \<Rightarrow> string \<Rightarrow> string \<Rightarrow> 'v \<Rightarrow> world \<Rightarrow> error + 'v" where
  "Read Unmarshal collection resource v w =
     (if collection = [] then Inl (Errorf ''Missing collection - no place to read record!'')
      else if resource = [] then Inl (Errorf ''Missing resource - unable to read record (no name)'')
      else
        case snd (stat (disk w) (record_path (driver w) collection resource)) of
          Some err \<Rightarrow> Inl (PathError err)
        | None \<Rightarrow>
            (case os_ReadFile (disk w) (record_path (driver w) collection resource @ ''.json'') of
               Inl err \<Rightarrow> Inl (PathError err)
             | Inr b \<Rightarrow> Unmarshal b v))"

text \<open>
  \<^verbatim>\<open>ReadAll\<close>, lines 128 to 147. The error of \<^verbatim>\<open>os.ReadDir\<close> is dropped (line 137),
  which leaves no entries to read. The loop stops at the first file it cannot read.
\<close>

fun read_records :: "filesystem \<Rightarrow> path \<Rightarrow> string list \<Rightarrow> string list \<Rightarrow> error + string list" where
  "read_records fs d [] records = Inr records"
| "read_records fs d (file # files) records =
     (case os_ReadFile fs (Join [d, file]) of
        Inl err \<Rightarrow> Inl (PathError err)
      | Inr b \<Rightarrow> read_records fs d files (records @ [b]))"

definition ReadAll :: "string \<Rightarrow> world \<Rightarrow> error + string list" where
  "ReadAll collection w =
     (if collection = [] then Inl (Errorf ''Missing collection!'')
      else
        case snd (stat (disk w) (Join [dir (driver w), collection])) of
          Some err \<Rightarrow> Inl (PathError err)
        | None \<Rightarrow>
            read_records (disk w) (Join [dir (driver w), collection])
              (case os_ReadDir (disk w) (Join [dir (driver w), collection]) of
                 Inl _ \<Rightarrow> []
               | Inr files \<Rightarrow> files)
              [])"

text \<open>\<^verbatim>\<open>New\<close>, lines 32 to 59, without the logger.\<close>

definition New :: "string \<Rightarrow> filesystem \<Rightarrow> Driver \<times> error option \<times> filesystem" where
  "New d fs =
     (case os_Stat fs (Clean d) of
        Inr _ \<Rightarrow> (\<lparr>mutexes = Map.empty, dir = Clean d\<rparr>, None, fs)
      | Inl _ \<Rightarrow>
          (case os_MkdirAll fs (Clean d) of
             (e, fs') \<Rightarrow> (\<lparr>mutexes = Map.empty, dir = Clean d\<rparr>, map_option PathError e, fs')))"

text \<open>
  Two calls of \<^verbatim>\<open>getOrCreateMutex\<close> at once. Each statement of the body is one step
  of its goroutine: the lookup \<^verbatim>\<open>m, ok := d.mutexes[collection]\<close>, the allocation
  \<^verbatim>\<open>m = &sync.Mutex{}\<close>, the store \<^verbatim>\<open>d.mutexes[collection] = m\<close>, the return. A
  schedule says which of the two goroutines takes the next step. Since the body takes
  no lock, every schedule is possible.
\<close>

datatype pc = AtLookup | AtAlloc | AtStore nat | Returned nat

fun gocm_step :: "string \<Rightarrow> pc \<Rightarrow> world \<Rightarrow> pc \<times> world" where
  "gocm_step collection AtLookup w =
     (case mutexes (driver w) collection of
        Some m \<Rightarrow> (Returned m, w)
      | None \<Rightarrow> (AtAlloc, w))"
| "gocm_step collection AtAlloc w = (AtStore (heap w), w\<lparr>heap := Suc (heap w)\<rparr>)"
| "gocm_step collection (AtStore m) w =
     (Returned m, w\<lparr>driver := (driver w)\<lparr>mutexes := (mutexes (driver w))(collection \<mapsto> m)\<rparr>\<rparr>)"
| "gocm_step collection (Returned m) w = (Returned m, w)"

fun run :: "string \<Rightarrow> string \<Rightarrow> bool list \<Rightarrow> pc \<times> pc \<times> world \<Rightarrow> pc \<times> pc \<times> world" where
  "run c1 c2 [] cfg = cfg"
| "run c1 c2 (first # schedule) (p1, p2, w) =
     (if first then
        (case gocm_step c1 p1 w of (p1', w') \<Rightarrow> run c1 c2 schedule (p1', p2, w'))
      else
        (case gocm_step c2 p2 w of (p2', w') \<Rightarrow> run c1 c2 schedule (p1, p2', w')))"

text \<open>
  The file systems a call of \<^verbatim>\<open>Write\<close> passes through: the one it finds, and the one
  after each call of package \<^verbatim>\<open>os\<close> it gets to (\<^verbatim>\<open>MkdirAll\<close>, \<^verbatim>\<open>WriteFile\<close>,
  \<^verbatim>\<open>Rename\<close>, lines 79 to 88).
\<close>

definition Write_trace ::
  "('v \<Rightarrow> string \<Rightarrow> string \<Rightarrow> error + string) \<Rightarrow> string \<Rightarrow> string \<Rightarrow> 'v \<Rightarrow> world
     \<Rightarrow> filesystem list" where
  "Write_trace MarshalIndent collection resource v w =
     (if collection = [] \<or> resource = [] then [disk w]
      else
        case MarshalIndent v [] [tab] of
          Inl err \<Rightarrow> [disk w]
        | Inr b \<Rightarrow>
            (case os_MkdirAll (disk w) (Join [dir (driver w), collection]) of
               (Some err, fs1) \<Rightarrow> [disk w, fs1]
             | (None, fs1) \<Rightarrow>
                 (case os_WriteFile fs1 (tmpPath (driver w) collection resource) (b @ [newline]) of
                    (Some err, fs2) \<Rightarrow> [disk w, fs1, fs2]
                  | (None, fs2) \<Rightarrow>
                      [disk w, fs1, fs2,
                       snd (os_Rename fs2 (tmpPath (driver w) collection resource)
                              (fnlPath (driver w) collection resource))])))"

section \<open>A store to run the operations on\<close>

text \<open>A string between double quotes: the JSON text of a Go string of plain characters.\<close>

definition quoted :: "string \<Rightarrow> string" where
  "quoted v = CHR 0x22 # v @ [CHR 0x22]"

text \<open>
  The working directory is \<^verbatim>\<open>/srv\<close> and the store is \<^verbatim>\<open>/srv/db\<close>. Collection
  \<^verbatim>\<open>users\<close> holds two records. Collection \<^verbatim>\<open>staff\<close> holds a record \<^verbatim>\<open>Paul\<close>, a
  directory where the temporary file of \<^verbatim>\<open>Paul\<close> would go, and a subdirectory.
\<close>

definition demo_users :: "(string \<times> node) list" where
  "demo_users = [(''John.json'', File (quoted ''John'')), (''Ashlie.json'', File (quoted ''Ashlie''))]"

definition demo_staff :: "(string \<times> node) list" where
  "demo_staff =
     [(''Paul.json'', File (quoted ''Paul'')), (''Paul.json.tmp'', Dir []), (''old'', Dir [])]"

definition demo_db :: "(string \<times> node) list" where
  "demo_db = [(''users'', Dir demo_users), (''staff'', Dir demo_staff)]"

definition demo_fs :: filesystem where
  "demo_fs = \<lparr>tree = Dir [(''srv'', Dir [(''db'', Dir demo_db)])], cwd = [''srv'']\<rparr>"

definition demo_world :: world where
  "demo_world = \<lparr>driver = \<lparr>mutexes = Map.empty, dir = ''db''\<rparr>, heap = 0, disk = demo_fs\<rparr>"

text \<open>The same file system with a driver made by \<^verbatim>\<open>New("./", nil)\<close>, as \<^verbatim>\<open>main\<close> does.\<close>

definition main_world :: world where
  "main_world = \<lparr>driver = fst (New ''./'' demo_fs), heap = 0, disk = demo_fs\<rparr>"

text \<open>
  An encoder and a decoder to run \<^verbatim>\<open>Write\<close> and \<^verbatim>\<open>Read\<close> with: for a Go string of
  plain characters, \<^verbatim>\<open>json.MarshalIndent\<close> gives the string in double quotes, whatever
  the indentation, and \<^verbatim>\<open>json.Unmarshal\<close> takes the quotes off, ignoring the final
  newline.
\<close>

definition sample_MarshalIndent :: "string \<Rightarrow> string \<Rightarrow> string \<Rightarrow> error + string" where
  "sample_MarshalIndent v pre indent = Inr (quoted v)"

definition sample_Unmarshal :: "string \<Rightarrow> string \<Rightarrow> error + string" where
  "sample_Unmarshal b out =
     (let t = (if b \<noteq> [] \<and> last b = newline then butlast b else b) in
      if 2 \<le> length t \<and> hd t = CHR 0x22 \<and> last t = CHR 0x22 then Inr (butlast (tl t))
      else Inl (JSONError ''invalid character''))"

section \<open>Facts about paths\<close>

lemma splitc_nonempty [simp]: "splitc p \<noteq> []"
  by (induction p) (auto split: list.splits)

lemma splitc_Cons:
  "splitc (x # xs) =
     (if x = Separator then [] # splitc xs else (x # hd (splitc xs)) # tl (splitc xs))"
  by (cases "splitc xs") auto

lemma splitc_append_sep: "splitc (a @ Separator # b) = splitc a @ splitc b"
  by (induction a) (auto simp: splitc_Cons simp del: splitc.simps(2))

lemma splitc_nosep: "Separator \<notin> set w \<Longrightarrow> splitc w = [w]"
  by (induction w) (auto simp: splitc_Cons simp del: splitc.simps(2))

lemma splitc_append_last:
  "Separator \<notin> set s \<Longrightarrow> splitc (p @ s) = butlast (splitc p) @ [last (splitc p) @ s]"
proof (induction p)
  case Nil
  then show ?case by (simp add: splitc_nosep)
next
  case (Cons x p)
  then show ?case
    by (cases "splitc p") (auto simp: splitc_Cons simp del: splitc.simps(2))
qed

lemma splitc_pieces: "c \<in> set (splitc p) \<Longrightarrow> Separator \<notin> set c"
proof (induction p arbitrary: c)
  case Nil
  then show ?case by simp
next
  case (Cons x p)
  then show ?case
    by (cases "splitc p") (auto simp: splitc_Cons simp del: splitc.simps(2) split: if_splits)
qed

lemma joinc_snoc: "cs \<noteq> [] \<Longrightarrow> joinc (cs @ [c]) = joinc cs @ Separator # c"
  by (induction cs rule: joinc.induct) auto

lemma joinc_snoc_suffix: "joinc (cs @ [c @ s]) = joinc (cs @ [c]) @ s"
  by (induction cs rule: joinc.induct) auto

lemma splitc_joinc:
  "cs \<noteq> [] \<Longrightarrow> \<forall>c\<in>set cs. Separator \<notin> set c \<Longrightarrow> splitc (joinc cs) = cs"
proof (induction cs rule: joinc.induct)
  case 1
  then show ?case by simp
next
  case (2 c)
  then show ?case by (simp add: splitc_nosep)
next
  case (3 c d cs)
  then show ?case by (simp add: splitc_append_sep splitc_nosep)
qed

lemma stk_ok_step:
  "stk_ok r st \<Longrightarrow> Separator \<notin> set c \<Longrightarrow> stk_ok r (clean_step r st c)"
  by (cases st) (auto simp: clean_step_def piece_ok_def Separator_def)

lemma stk_ok_foldl:
  "stk_ok r st \<Longrightarrow> \<forall>c\<in>set cs. Separator \<notin> set c \<Longrightarrow> stk_ok r (foldl (clean_step r) st cs)"
  by (induction cs arbitrary: st) (auto simp: stk_ok_step)

lemma clean_step_ok_top:
  "stk_ok r (t # ts) \<Longrightarrow> clean_step r ts t = t # ts"
  by (cases ts) (auto simp: clean_step_def piece_ok_def)

lemma stk_ok_tl: "stk_ok r (t # ts) \<Longrightarrow> stk_ok r ts"
  by simp

lemma foldl_clean_rev:
  "stk_ok r st \<Longrightarrow> foldl (clean_step r) [] (rev st) = st"
proof (induction st)
  case Nil
  then show ?case by simp
next
  case (Cons t ts)
  have "foldl (clean_step r) [] (rev ts) = ts"
    using Cons.IH stk_ok_tl [OF Cons.prems] by simp
  then show ?case
    using clean_step_ok_top [OF Cons.prems] by simp
qed

lemma rooted_append [simp]: "a \<noteq> [] \<Longrightarrow> rooted (a @ b) = rooted a"
  by (cases a) (auto simp: rooted_def)

lemma stk_ok_last: "stk_ok r st \<Longrightarrow> st \<noteq> [] \<Longrightarrow> piece_ok (last st)"
  by (induction st) auto

lemma joinc_hd: "cs \<noteq> [] \<Longrightarrow> hd cs \<noteq> [] \<Longrightarrow> joinc cs \<noteq> [] \<and> hd (joinc cs) = hd (hd cs)"
  by (induction cs rule: joinc.induct) auto

lemma stk_ok_joinc:
  assumes "stk_ok r st" "st \<noteq> []"
  shows "joinc (rev st) \<noteq> []" and "\<not> rooted (joinc (rev st))"
proof -
  have h: "piece_ok (hd (rev st))"
    using stk_ok_last [OF assms] assms(2) by (simp add: hd_rev)
  then have ne: "hd (rev st) \<noteq> []" and nsep: "hd (hd (rev st)) \<noteq> Separator"
    by (cases "hd (rev st)"; auto simp: piece_ok_def)+
  have j: "joinc (rev st) \<noteq> [] \<and> hd (joinc (rev st)) = hd (hd (rev st))"
    using assms(2) ne by (intro joinc_hd) auto
  show "joinc (rev st) \<noteq> []" using j by simp
  show "\<not> rooted (joinc (rev st))"
    using j nsep by (cases "joinc (rev st)") (auto simp: rooted_def)
qed

lemma stk_ok_pieces: "stk_ok r st \<Longrightarrow> c \<in> set st \<Longrightarrow> Separator \<notin> set c"
  by (induction st) (auto simp: piece_ok_def)

lemma clean_stack_ok: "stk_ok r (foldl (clean_step r) [] (splitc p))"
  by (rule stk_ok_foldl) (auto dest: splitc_pieces)

lemma Clean_nonempty [simp]: "Clean p \<noteq> []"
  using stk_ok_joinc(1) [OF clean_stack_ok, of "rooted p" p]
  by (auto simp: Clean_def render_def clean_comps_def)

lemma rooted_Clean: "rooted (Clean p) = rooted p"
proof -
  let ?st = "foldl (clean_step (rooted p)) [] (splitc p)"
  have ok: "stk_ok (rooted p) ?st" by (rule clean_stack_ok)
  show ?thesis
  proof (cases "?st = []")
    case True
    then show ?thesis
      by (cases "rooted p") (simp_all add: Clean_def render_def clean_comps_def rooted_def Separator_def)
  next
    case False
    then show ?thesis using stk_ok_joinc(2) [OF ok False]
      by (cases "rooted p") (simp_all add: Clean_def render_def clean_comps_def, simp add: rooted_def Separator_def)
  qed
qed

text \<open>Splitting a cleaned path gives back the cleaned elements, up to skipped pieces.\<close>

lemma foldl_clean_splitc_render:
  assumes "stk_ok r st"
  shows "foldl (clean_step r) [] (splitc (render r (rev st))) = st"
proof (cases "st = []")
  case True
  then show ?thesis
    by (simp add: render_def clean_step_def Separator_def)
next
  case False
  have sp: "splitc (joinc (rev st)) = rev st"
    using False assms by (intro splitc_joinc) (auto dest: stk_ok_pieces)
  have root: "splitc (Separator # joinc (rev st)) = [] # rev st"
    using sp by simp
  show ?thesis
    using False sp root foldl_clean_rev [OF assms]
    by (auto simp: render_def clean_step_def Separator_def)
qed

lemma Clean_Clean_sep:
  assumes "a \<noteq> []"
  shows "Clean (Clean a @ Separator # y) = Clean (a @ Separator # y)"
proof -
  let ?r = "rooted a"
  let ?st = "foldl (clean_step ?r) [] (splitc a)"
  have ok: "stk_ok ?r ?st" by (rule clean_stack_ok)
  have c: "Clean a = render ?r (rev ?st)" by (simp add: Clean_def clean_comps_def)
  have "foldl (clean_step ?r) [] (splitc (Clean a)) = ?st"
    unfolding c by (rule foldl_clean_splitc_render [OF ok])
  then show ?thesis
    using assms by (simp add: Clean_def [of "_ @ _"] clean_comps_def splitc_append_sep rooted_Clean)
qed

lemma clean_step_ordinary: "ordinary c \<Longrightarrow> clean_step r st c = c # st"
  by (simp add: clean_step_def ordinary_def)

lemma ordinary_append: "ordinary c \<Longrightarrow> Separator \<notin> set s \<Longrightarrow> ordinary (c @ s)"
  by (cases c rule: list.exhaust; cases s) (auto simp: ordinary_def Cons_eq_append_conv append_eq_Cons_conv)

lemma ordinary_last_nonempty: "ordinary (last (splitc q)) \<Longrightarrow> q \<noteq> []"
  by (auto simp: ordinary_def)

lemma Clean_suffix:
  assumes l: "ordinary (last (splitc q))" and s: "Separator \<notin> set s"
  shows "Clean (q @ s) = Clean q @ s"
proof -
  let ?l = "last (splitc q)" and ?bs = "butlast (splitc q)" and ?r = "rooted q"
  have q: "q \<noteq> []" using l by (rule ordinary_last_nonempty)
  have sq: "splitc q = ?bs @ [?l]" by simp
  have sqs: "splitc (q @ s) = ?bs @ [?l @ s]" using s by (rule splitc_append_last)
  have ls: "ordinary (?l @ s)" using l s by (rule ordinary_append)
  have 1: "clean_comps ?r (splitc (q @ s)) = rev (foldl (clean_step ?r) [] ?bs) @ [?l @ s]"
    unfolding sqs by (simp add: clean_comps_def clean_step_ordinary [OF ls])
  have 2: "clean_comps ?r (splitc q) = rev (foldl (clean_step ?r) [] ?bs) @ [?l]"
    by (subst sq) (simp add: clean_comps_def clean_step_ordinary [OF l] del: append_butlast_last_id)
  show ?thesis
    using q by (simp add: Clean_def 1 2 render_def joinc_snoc_suffix)
qed

text \<open>Walking the cleaned elements from a start is walking the original pieces.\<close>

lemma os_walk_clean_step:
  assumes "stk_ok r st" and "r \<longrightarrow> start = []" and "Separator \<notin> set c"
  shows "foldl os_step start (rev (clean_step r st c)) = os_step (foldl os_step start (rev st)) c"
proof (cases "c = [] \<or> c = ''.''")
  case True
  then show ?thesis by (auto simp: clean_step_def os_step_def)
next
  case skip: False
  show ?thesis
  proof (cases "c = ''..''")
    case False
    with skip show ?thesis by (simp add: clean_step_def)
  next
    case dd: True
    show ?thesis
    proof (cases st)
      case Nil
      with dd assms(2) show ?thesis by (auto simp: clean_step_def os_step_def)
    next
      case (Cons t ts)
      with dd assms(1) show ?thesis
        by (auto simp: clean_step_def os_step_def piece_ok_def)
    qed
  qed
qed

lemma os_walk_clean_foldl:
  assumes "stk_ok r st" and "r \<longrightarrow> start = []" and "\<forall>c\<in>set cs. Separator \<notin> set c"
  shows "foldl os_step start (rev (foldl (clean_step r) st cs))
       = foldl os_step (foldl os_step start (rev st)) cs"
  using assms
proof (induction cs arbitrary: st)
  case Nil
  then show ?case by simp
next
  case (Cons c cs)
  have ok: "stk_ok r (clean_step r st c)"
    using Cons.prems by (intro stk_ok_step) auto
  have "foldl os_step start (rev (foldl (clean_step r) (clean_step r st c) cs))
      = foldl os_step (foldl os_step start (rev (clean_step r st c))) cs"
    using Cons.prems by (intro Cons.IH [OF ok]) auto
  also have "foldl os_step start (rev (clean_step r st c)) = os_step (foldl os_step start (rev st)) c"
    using Cons.prems by (intro os_walk_clean_step) auto
  finally show ?case by simp
qed

lemma os_walk_render:
  assumes "stk_ok r st"
  shows "foldl os_step start (splitc (render r (rev st))) = foldl os_step start (rev st)"
proof (cases "st = []")
  case True
  then show ?thesis by (simp add: render_def os_step_def Separator_def)
next
  case False
  have sp: "splitc (joinc (rev st)) = rev st"
    using False assms by (intro splitc_joinc) (auto dest: stk_ok_pieces)
  then have "splitc (Separator # joinc (rev st)) = [] # rev st" by simp
  with sp False show ?thesis
    by (auto simp: render_def os_step_def Separator_def)
qed

lemma resolve_Clean: "resolve wd (Clean p) = resolve wd p"
proof -
  let ?r = "rooted p"
  let ?start = "if ?r then [] else rev wd"
  let ?st = "foldl (clean_step ?r) [] (splitc p)"
  have ok: "stk_ok ?r ?st" by (rule clean_stack_ok)
  have "foldl os_step ?start (splitc (Clean p)) = foldl os_step ?start (rev ?st)"
    using os_walk_render [OF ok] by (simp add: Clean_def clean_comps_def)
  also have "\<dots> = foldl os_step (foldl os_step ?start (rev [])) (splitc p)"
    by (rule os_walk_clean_foldl) (auto dest: splitc_pieces)
  finally show ?thesis
    by (simp add: resolve_def rooted_Clean)
qed

lemma os_step_ordinary: "ordinary c \<Longrightarrow> os_step st c = c # st"
  by (simp add: os_step_def ordinary_def)

lemma resolve_ordinary_last:
  assumes "ordinary (last (splitc q))"
  shows "resolve wd q = parent_of wd q @ [last (splitc q)]"
proof -
  have "foldl os_step s (butlast (splitc q) @ [last (splitc q)])
      = last (splitc q) # foldl os_step s (butlast (splitc q))" for s
    by (simp only: foldl_append foldl_Cons foldl_Nil os_step_ordinary [OF assms])
  then have "foldl os_step s (splitc q) = last (splitc q) # foldl os_step s (butlast (splitc q))" for s
    by simp
  then show ?thesis by (simp add: resolve_def parent_of_def)
qed

lemma resolve_suffix:
  assumes l: "ordinary (last (splitc q))" and s: "Separator \<notin> set s"
  shows "resolve wd (q @ s) = parent_of wd q @ [last (splitc q) @ s]"
proof -
  have q: "q \<noteq> []" using l by (rule ordinary_last_nonempty)
  have ls: "ordinary (last (splitc q) @ s)" using l s by (rule ordinary_append)
  have sp: "splitc (q @ s) = butlast (splitc q) @ [last (splitc q) @ s]"
    using s by (rule splitc_append_last)
  have "last (splitc (q @ s)) = last (splitc q) @ s" "butlast (splitc (q @ s)) = butlast (splitc q)"
    unfolding sp by simp_all
  then show ?thesis
    using resolve_ordinary_last [of "q @ s" wd] ls q by (simp add: parent_of_def)
qed

section \<open>Facts about the file system\<close>

lemma map_of_update_same: "map_of (AList.update k v al) k = Some v"
  by (simp add: update_conv')

lemma map_of_update_other: "k' \<noteq> k \<Longrightarrow> map_of (AList.update k v al) k' = map_of al k'"
  by (simp add: update_conv')

lemma map_of_delete_same: "map_of (AList.delete k al) k = None"
  by (simp add: delete_conv')

lemma lookup_put_same: "put t q n = Inr t' \<Longrightarrow> lookup t' q = Inr n"
proof (induction q arbitrary: t t')
  case Nil
  then show ?case by simp
next
  case (Cons c cs)
  then show ?case
    by (auto simp: map_of_update_same split: node.splits option.splits if_splits sum.splits)
qed

lemma lookup_put_other:
  "put t q n = Inr t' \<Longrightarrow> \<not> prefix q p \<Longrightarrow> \<not> prefix p q \<Longrightarrow> lookup t' p = lookup t p"
proof (induction q arbitrary: t t' p)
  case Nil
  then show ?case by simp
next
  case (Cons c cs)
  obtain a ps where p: "p = a # ps" using Cons.prems(3) by (cases p) auto
  show ?case
  proof (cases "a = c")
    case False
    with Cons.prems(1) show ?thesis unfolding p
      by (auto simp: map_of_update_other split: node.splits option.splits if_splits sum.splits)
  next
    case True
    with Cons.prems p have np: "\<not> prefix cs ps" "\<not> prefix ps cs" by auto
    then have "cs \<noteq> []" by auto
    with Cons.prems(1) True np Cons.IH show ?thesis unfolding p
      by (auto simp: map_of_update_same split: node.splits option.splits sum.splits)
  qed
qed

lemma lookup_append_err: "lookup t p = Inl e \<Longrightarrow> lookup t (p @ q) = Inl e"
  by (induction p arbitrary: t) (auto split: node.splits option.splits)

lemma file_at_Nil_Dir [simp]: "file_at (Dir es) [] = None"
  by (simp add: file_at_def)

lemma file_at_empty_Dir [simp]: "file_at (Dir []) p = None"
  by (cases p) (simp_all add: file_at_def)

lemma file_at_Cons:
  "file_at t (c # cs) =
     (case t of Dir es \<Rightarrow> (case map_of es c of None \<Rightarrow> None | Some m \<Rightarrow> file_at m cs) | _ \<Rightarrow> None)"
  by (simp add: file_at_def split: node.splits option.splits)

lemma mkdirAll_file_at: "mkdirAll t q = Inr t' \<Longrightarrow> file_at t' p = file_at t p"
proof (induction q arbitrary: t t' p)
  case Nil
  then show ?case by (auto split: node.splits)
next
  case (Cons c cs)
  then obtain es m' where t: "t = Dir es"
    and m': "mkdirAll (case map_of es c of None \<Rightarrow> Dir [] | Some m \<Rightarrow> m) cs = Inr m'"
    and t': "t' = Dir (AList.update c m' es)"
    by (auto split: node.splits sum.splits)
  show ?case
  proof (cases p)
    case Nil
    then show ?thesis by (simp add: t t')
  next
    case (Cons a ps)
    show ?thesis
    proof (cases "a = c")
      case False
      then show ?thesis by (simp add: Cons t t' file_at_Cons map_of_update_other)
    next
      case True
      have "file_at m' ps = file_at (case map_of es c of None \<Rightarrow> Dir [] | Some m \<Rightarrow> m) ps"
        by (rule Cons.IH [OF m'])
      then show ?thesis
        by (simp add: Cons True t t' file_at_Cons map_of_update_same split: option.splits)
    qed
  qed
qed

lemma lookup_mkdirAll: "mkdirAll t q = Inr t' \<Longrightarrow> \<exists>es. lookup t' q = Inr (Dir es)"
proof (induction q arbitrary: t t')
  case Nil
  then show ?case by (auto split: node.splits)
next
  case (Cons c cs)
  then show ?case
    by (auto simp: map_of_update_same split: node.splits sum.splits)
qed

lemma del_Cons:
  "del t (c # cs) =
     (case t of
        Dir es \<Rightarrow>
          if cs = [] then Dir (AList.delete c es)
          else (case map_of es c of None \<Rightarrow> t | Some m \<Rightarrow> Dir (AList.update c (del m cs) es))
      | _ \<Rightarrow> t)"
  by (cases cs) (auto split: node.splits)

lemma lookup_del_ENOENT:
  "lookup t p = Inr n \<Longrightarrow> p \<noteq> [] \<Longrightarrow> lookup (del t p) p = Inl ENOENT"
proof (induction p arbitrary: t)
  case Nil
  then show ?case by simp
next
  case (Cons c cs)
  then obtain es m where t: "t = Dir es" and m: "map_of es c = Some m" and l: "lookup m cs = Inr n"
    by (auto split: node.splits option.splits)
  show ?case
  proof (cases "cs = []")
    case True
    then show ?thesis by (simp add: t del_Cons map_of_delete_same del: del.simps)
  next
    case False
    then show ?thesis using Cons.IH [OF l False]
      by (simp add: t m del_Cons map_of_update_same del: del.simps)
  qed
qed

lemma lookup_del_other:
  "\<not> prefix p q \<Longrightarrow> \<not> prefix q p \<Longrightarrow> lookup (del t p) q = lookup t q"
proof (induction p arbitrary: t q)
  case Nil
  then show ?case by simp
next
  case (Cons c cs)
  obtain a qs where q: "q = a # qs" using Cons.prems(2) by (cases q) auto
  show ?case
  proof (cases "a = c")
    case False
    then show ?thesis unfolding q
      by (auto simp: del_Cons map_of_update_other simp del: del.simps
          split: node.splits option.splits)
  next
    case True
    with Cons.prems q have np: "\<not> prefix cs qs" "\<not> prefix qs cs" by auto
    then have "cs \<noteq> []" by auto
    then show ?thesis unfolding q using True Cons.IH [OF np]
      by (auto simp: del_Cons map_of_update_same simp del: del.simps
          split: node.splits option.splits)
  qed
qed

lemma file_at_del_other: "\<not> prefix p q \<Longrightarrow> file_at (del t p) q = file_at t q"
proof (induction p arbitrary: t q)
  case Nil
  then show ?case by simp
next
  case (Cons c cs)
  show ?case
  proof (cases q)
    case Nil
    then show ?thesis
      by (auto simp: file_at_def del_Cons simp del: del.simps split: node.splits option.splits)
  next
    case q: (Cons a qs)
    show ?thesis
    proof (cases "a = c")
      case False
      then show ?thesis unfolding q
        by (auto simp: file_at_Cons del_Cons map_of_update_other simp del: del.simps
            split: node.splits option.splits)
    next
      case True
      with Cons.prems q have np: "\<not> prefix cs qs" by auto
      then have "cs \<noteq> []" by auto
      then show ?thesis unfolding q using True Cons.IH [OF np]
        by (auto simp: file_at_Cons del_Cons map_of_update_same simp del: del.simps
            split: node.splits option.splits)
    qed
  qed
qed

subsection \<open>Cleaning twice, and the last element of a cleaned path\<close>

lemma Clean_unfold:
  "Clean p = render (rooted p) (rev (foldl (clean_step (rooted p)) [] (splitc p)))"
  by (simp add: Clean_def clean_comps_def)

lemma Clean_Clean [simp]: "Clean (Clean b) = Clean b"
proof -
  let ?r = "rooted b"
  let ?st = "foldl (clean_step ?r) [] (splitc b)"
  have ok: "stk_ok ?r ?st" by (rule clean_stack_ok)
  have h: "foldl (clean_step ?r) [] (splitc (Clean b)) = ?st"
    unfolding Clean_unfold [of b] by (rule foldl_clean_splitc_render [OF ok])
  have "Clean (Clean b)
      = render (rooted (Clean b)) (rev (foldl (clean_step (rooted (Clean b))) [] (splitc (Clean b))))"
    by (rule Clean_unfold)
  also have "\<dots> = render ?r (rev ?st)" by (simp only: rooted_Clean h)
  also have "\<dots> = Clean b" by (rule Clean_unfold [symmetric])
  finally show ?thesis .
qed

lemma Clean_trailing_sep: "a \<noteq> [] \<Longrightarrow> Clean (a @ [Separator]) = Clean a"
  by (simp add: Clean_def clean_comps_def splitc_append_sep clean_step_def)

text \<open>Cleaning the right part of a path first changes nothing, if that part is relative.\<close>

lemma clean_walk_step:
  assumes "stk_ok False st'"
  shows "foldl (clean_step r) st (rev (clean_step False st' c))
       = clean_step r (foldl (clean_step r) st (rev st')) c"
proof (cases "c = [] \<or> c = ''.''")
  case True
  then show ?thesis by (auto simp: clean_step_def)
next
  case skip: False
  show ?thesis
  proof (cases "c = ''..''")
    case False
    with skip show ?thesis by (simp add: clean_step_def)
  next
    case dd: True
    show ?thesis
    proof (cases st')
      case Nil
      with dd show ?thesis by (simp add: clean_step_def)
    next
      case (Cons t ts)
      show ?thesis
      proof (cases "t = ''..''")
        case True
        with dd Cons show ?thesis by (simp add: clean_step_def)
      next
        case False
        have "piece_ok t" using assms Cons by simp
        then have "clean_step r s t = t # s" for s
          using False by (simp add: clean_step_def piece_ok_def)
        with dd Cons False show ?thesis by (simp add: clean_step_def)
      qed
    qed
  qed
qed

lemma clean_walk_foldl:
  assumes "stk_ok False st'" and "\<forall>c\<in>set cs. Separator \<notin> set c"
  shows "foldl (clean_step r) st (rev (foldl (clean_step False) st' cs))
       = foldl (clean_step r) (foldl (clean_step r) st (rev st')) cs"
  using assms
proof (induction cs arbitrary: st')
  case Nil
  then show ?case by simp
next
  case (Cons c cs)
  have ok: "stk_ok False (clean_step False st' c)"
    using Cons.prems by (intro stk_ok_step) auto
  have "foldl (clean_step r) st (rev (foldl (clean_step False) (clean_step False st' c) cs))
      = foldl (clean_step r) (foldl (clean_step r) st (rev (clean_step False st' c))) cs"
    using Cons.prems by (intro Cons.IH [OF ok]) auto
  also have "foldl (clean_step r) st (rev (clean_step False st' c))
           = clean_step r (foldl (clean_step r) st (rev st')) c"
    using Cons.prems by (intro clean_walk_step) auto
  finally show ?case by simp
qed

lemma clean_walk_render:
  assumes "stk_ok False st'"
  shows "foldl (clean_step r) st (splitc (render False (rev st')))
       = foldl (clean_step r) st (rev st')"
proof (cases "st' = []")
  case True
  then show ?thesis by (simp add: render_def clean_step_def Separator_def)
next
  case False
  have "splitc (joinc (rev st')) = rev st'"
    using False assms by (intro splitc_joinc) (auto dest: stk_ok_pieces)
  with False show ?thesis by (simp add: render_def)
qed

lemma Clean_sep_Clean:
  assumes "\<not> rooted b"
  shows "Clean (a @ Separator # Clean b) = Clean (a @ Separator # b)"
proof -
  define R where "R = rooted (a @ [Separator])"
  let ?st' = "foldl (clean_step False) [] (splitc b)"
  let ?st = "foldl (clean_step R) [] (splitc a)"
  have ok: "stk_ok False ?st'" by (rule clean_stack_ok)
  have c: "Clean b = render False (rev ?st')"
    using assms by (simp add: Clean_unfold)
  have "foldl (clean_step R) ?st (splitc (Clean b)) = foldl (clean_step R) ?st (rev ?st')"
    unfolding c by (rule clean_walk_render [OF ok])
  also have "\<dots> = foldl (clean_step R) (foldl (clean_step R) ?st (rev [])) (splitc b)"
    by (rule clean_walk_foldl) (auto dest: splitc_pieces)
  finally have h: "foldl (clean_step R) ?st (splitc (Clean b)) = foldl (clean_step R) ?st (splitc b)"
    by simp
  have r: "rooted (a @ Separator # x) = R" for x
    unfolding R_def by (cases a) (simp_all add: rooted_def)
  have u: "Clean (a @ Separator # x) = render R (rev (foldl (clean_step R) ?st (splitc x)))" for x
    by (simp only: Clean_unfold [of "a @ Separator # x"] r splitc_append_sep foldl_append)
  show ?thesis by (simp only: u h)
qed

lemma last_splitc_sep: "last (splitc (a @ Separator # b)) = last (splitc b)"
  by (simp add: splitc_append_sep)

lemma last_splitc_suffix:
  "Separator \<notin> set s \<Longrightarrow> last (splitc (p @ s)) = last (splitc p) @ s"
  by (simp add: splitc_append_last)

lemma last_splitc_Clean:
  assumes "ordinary (last (splitc q))"
  shows "last (splitc (Clean q)) = last (splitc q)"
proof -
  let ?l = "last (splitc q)" and ?bs = "butlast (splitc q)" and ?r = "rooted q"
  let ?st = "foldl (clean_step ?r) [] ?bs"
  have sq: "splitc q = ?bs @ [?l]" by simp
  have ok: "stk_ok ?r ?st"
    by (rule stk_ok_foldl) (auto dest: in_set_butlastD splitc_pieces)
  have nosep: "Separator \<notin> set ?l" using assms by (simp add: ordinary_def)
  have 2: "clean_comps ?r (splitc q) = rev ?st @ [?l]"
    by (subst sq) (simp add: clean_comps_def clean_step_ordinary [OF assms] del: append_butlast_last_id)
  have "splitc (joinc (rev ?st @ [?l])) = rev ?st @ [?l]"
    using nosep ok by (intro splitc_joinc) (auto dest: stk_ok_pieces)
  then have "last (splitc (joinc (rev ?st @ [?l]))) = ?l"
    and "last (splitc (Separator # joinc (rev ?st @ [?l]))) = ?l"
    by simp_all
  then show ?thesis
    by (auto simp: Clean_def 2 render_def Separator_def)
qed

lemma endsWithDot_last: "endsWithDot p \<Longrightarrow> last (splitc p) = ''.''"
proof -
  assume a: "endsWithDot p"
  show ?thesis
  proof (cases "p = ''.''")
    case True
    then show ?thesis by (simp add: Separator_def)
  next
    case False
    with a have l: "2 \<le> length p" and d: "drop (length p - 2) p = [Separator, CHR ''.'']"
      by (auto simp: endsWithDot_def)
    have "p = take (length p - 2) p @ Separator # ''.''"
      using d by (metis append_take_drop_id)
    then have "last (splitc p) = last (splitc ''.'')"
      by (metis last_splitc_sep)
    then show ?thesis by (simp add: Separator_def)
  qed
qed

lemma ordinary_not_endsWithDot: "ordinary (last (splitc p)) \<Longrightarrow> \<not> endsWithDot p"
  using endsWithDot_last [of p] by (auto simp: ordinary_def)

lemma ordinary_json: "Separator \<notin> set l \<Longrightarrow> ordinary (l @ ''.json'')"
  by (cases l rule: rev_cases) (auto simp: ordinary_def Separator_def)

lemma ordinary_last_json: "ordinary (last (splitc (q @ ''.json'')))"
proof -
  have "last (splitc (q @ ''.json'')) = last (splitc q) @ ''.json''"
    by (rule last_splitc_suffix) (simp add: Separator_def)
  moreover have "Separator \<notin> set (last (splitc q))"
    by (rule splitc_pieces [OF last_in_set]) simp
  ultimately show ?thesis by (simp add: ordinary_json)
qed

section \<open>Facts about the paths and steps of the driver\<close>

lemma Join2: "c \<noteq> [] \<Longrightarrow> Join [d, c] = Clean (if d = [] then c else d @ Separator # c)"
  by (simp add: Join_def)

lemma Join3:
  "c \<noteq> [] \<Longrightarrow>
   Join [d, c, r] = Clean ((if d = [] then c else d @ Separator # c) @ Separator # r)"
  by (simp add: Join_def)

lemma Join_Clean_left: "a \<noteq> [] \<Longrightarrow> Join [Clean a, y] = Clean (a @ Separator # y)"
  by (simp add: Join_def Clean_Clean_sep)

lemma fnlPath_Clean:
  "c \<noteq> [] \<Longrightarrow>
   fnlPath d c r = Clean ((if dir d = [] then c else dir d @ Separator # c) @ Separator # r @ ''.json'')"
  by (simp add: fnlPath_def Join_def Clean_Clean_sep)

lemma record_path_Clean:
  "c \<noteq> [] \<Longrightarrow>
   record_path d c r = Clean ((if dir d = [] then c else dir d @ Separator # c) @ Separator # r)"
  by (simp add: record_path_def Join3)

lemma json_nosep: "Separator \<notin> set ''.json''" and tmp_nosep: "Separator \<notin> set ''.tmp''"
  by (simp_all add: Separator_def)

lemma record_path_json:
  assumes "c \<noteq> []" and "ordinary (last (splitc r))"
  shows "record_path d c r @ ''.json'' = fnlPath d c r"
proof -
  let ?b = "if dir d = [] then c else dir d @ Separator # c"
  have "ordinary (last (splitc (?b @ Separator # r)))"
    using assms(2) by (simp only: last_splitc_sep)
  then have "Clean ((?b @ Separator # r) @ ''.json'') = Clean (?b @ Separator # r) @ ''.json''"
    using json_nosep by (rule Clean_suffix)
  then show ?thesis
    using assms(1) by (simp add: fnlPath_Clean record_path_Clean)
qed

lemma Delete_dir_record_path:
  assumes "c \<noteq> []" and "\<not> rooted c"
  shows "Delete_dir d c r = record_path d c r"
proof -
  have nr: "\<not> rooted (c @ Separator # r)" using assms by simp
  have p: "Delete_path c r = Clean (c @ Separator # r)"
    using assms(1) by (simp add: Delete_path_def Join_def)
  show ?thesis
  proof (cases "dir d = []")
    case True
    then show ?thesis using assms(1)
      by (simp add: Delete_dir_def p record_path_Clean Join_def)
  next
    case False
    have "Delete_dir d c r = Clean (dir d @ Separator # Clean (c @ Separator # r))"
      using False by (simp add: Delete_dir_def p Join_def)
    also have "\<dots> = Clean (dir d @ Separator # c @ Separator # r)"
      using nr by (rule Clean_sep_Clean)
    finally show ?thesis using False assms(1) by (simp add: record_path_Clean)
  qed
qed

text \<open>The final file and the temporary file are two entries of one directory.\<close>

lemma fnl_tmp_siblings:
  assumes "c \<noteq> []"
  shows "\<exists>P l. resolve wd (fnlPath d c r) = P @ [l]
             \<and> resolve wd (tmpPath d c r) = P @ [l @ ''.tmp'']"
proof -
  let ?q = "(if dir d = [] then c else dir d @ Separator # c) @ Separator # r @ ''.json''"
  have o: "ordinary (last (splitc ?q))"
    using ordinary_last_json [of "(if dir d = [] then c else dir d @ Separator # c) @ Separator # r"]
    by simp
  have f: "fnlPath d c r = Clean ?q" using assms by (rule fnlPath_Clean)
  have "tmpPath d c r = Clean (?q @ ''.tmp'')"
    unfolding tmpPath_def f using Clean_suffix [OF o tmp_nosep] by simp
  then have "resolve wd (tmpPath d c r) = parent_of wd ?q @ [last (splitc ?q) @ ''.tmp'']"
    using resolve_suffix [OF o tmp_nosep] by (simp only: resolve_Clean)
  moreover have "resolve wd (fnlPath d c r) = parent_of wd ?q @ [last (splitc ?q)]"
    unfolding f using resolve_ordinary_last [OF o] by (simp only: resolve_Clean)
  ultimately show ?thesis by blast
qed

lemma siblings_unrelated:
  "\<not> prefix (P @ [l @ ''.tmp'']) (P @ [l])" "\<not> prefix (P @ [l]) (P @ [l @ ''.tmp''])"
  by simp_all

lemma gocm_disk [simp]: "disk (snd (getOrCreateMutex c w)) = disk w"
  by (simp add: getOrCreateMutex_def split: option.splits)

lemma gocm_dir [simp]: "dir (driver (snd (getOrCreateMutex c w))) = dir (driver w)"
  by (simp add: getOrCreateMutex_def split: option.splits)

lemma fnlPath_cong: "dir d = dir d' \<Longrightarrow> fnlPath d c r = fnlPath d' c r"
  by (simp add: fnlPath_def)

lemma tmpPath_cong: "dir d = dir d' \<Longrightarrow> tmpPath d c r = tmpPath d' c r"
  by (simp add: tmpPath_def fnlPath_def)

lemma file_bytes_file_at:
  "file_bytes fs p = (if p = [] then None else file_at (tree fs) (resolve (cwd fs) p))"
  by (simp add: file_bytes_def os_ReadFile_def file_at_def split: sum.splits node.splits)

lemma os_MkdirAll_frame:
  "os_MkdirAll fs p = (e, fs') \<Longrightarrow> cwd fs' = cwd fs \<and> file_at (tree fs') q = file_at (tree fs) q"
  by (auto simp: os_MkdirAll_def mkdirAll_file_at split: if_splits sum.splits)

lemma os_MkdirAll_bytes: "os_MkdirAll fs p = (e, fs') \<Longrightarrow> file_bytes fs' q = file_bytes fs q"
  using os_MkdirAll_frame [of fs p e fs'] by (simp add: file_bytes_file_at)

lemma os_MkdirAll_fail: "os_MkdirAll fs p = (Some e, fs') \<Longrightarrow> fs' = fs"
  by (auto simp: os_MkdirAll_def split: if_splits sum.splits)

lemma os_WriteFile_fail: "os_WriteFile fs p data = (Some e, fs') \<Longrightarrow> fs' = fs"
  by (auto simp: os_WriteFile_def split: if_splits sum.splits node.splits)

lemma os_WriteFile_put:
  "os_WriteFile fs p data = (None, fs') \<Longrightarrow>
   p \<noteq> [] \<and> cwd fs' = cwd fs \<and> put (tree fs) (resolve (cwd fs) p) (File data) = Inr (tree fs')"
  by (auto simp: os_WriteFile_def split: if_splits sum.splits node.splits)

lemma os_WriteFile_ok:
  assumes "os_WriteFile fs p data = (None, fs')"
  shows "cwd fs' = cwd fs"
    and "lookup (tree fs') (resolve (cwd fs) p) = Inr (File data)"
    and "\<not> prefix (resolve (cwd fs) p) q \<Longrightarrow> \<not> prefix q (resolve (cwd fs) p)
         \<Longrightarrow> lookup (tree fs') q = lookup (tree fs) q"
  using os_WriteFile_put [OF assms] lookup_put_same lookup_put_other by auto

lemma os_Rename_fail: "os_Rename fs a b = (Some e, fs') \<Longrightarrow> fs' = fs"
  by (auto simp: os_Rename_def Let_def split: if_splits sum.splits option.splits)

lemma os_Rename_ok:
  assumes "os_Rename fs a b = (None, fs')"
  shows "cwd fs' = cwd fs"
    and "lookup (tree fs') (resolve (cwd fs) b) = lookup (tree fs) (resolve (cwd fs) a)"
  using assms
  by (auto simp: os_Rename_def Let_def lookup_put_same split: if_splits sum.splits option.splits)

lemma Write_reject:
  "c = [] \<or> r = [] \<Longrightarrow> \<exists>e. Write M c r v w = (Some e, w)"
  by (auto simp: Write_def)

text \<open>What a call of \<open>Write\<close> that gets past the two guards does, step by step.\<close>

lemma Write_steps:
  assumes c: "c \<noteq> []" and r: "r \<noteq> []"
  shows "Write M c r v w =
    (case M v [] [tab] of
       Inl err \<Rightarrow> (Some err, snd (getOrCreateMutex c w))
     | Inr b \<Rightarrow>
        (case os_MkdirAll (disk w) (Join [dir (driver w), c]) of
           (Some err, fs1) \<Rightarrow> (Some (PathError err), (snd (getOrCreateMutex c w))\<lparr>disk := fs1\<rparr>)
         | (None, fs1) \<Rightarrow>
            (case os_WriteFile fs1 (tmpPath (driver w) c r) (b @ [newline]) of
               (Some err, fs2) \<Rightarrow>
                 (Some (PathError err), (snd (getOrCreateMutex c w))\<lparr>disk := fs2\<rparr>)
             | (None, fs2) \<Rightarrow>
                (case os_Rename fs2 (tmpPath (driver w) c r) (fnlPath (driver w) c r) of
                   (Some err, fs3) \<Rightarrow>
                     (Some (LinkError err), (snd (getOrCreateMutex c w))\<lparr>disk := fs3\<rparr>)
                 | (None, fs3) \<Rightarrow> (None, (snd (getOrCreateMutex c w))\<lparr>disk := fs3\<rparr>)))))"
proof -
  have "fnlPath (driver (snd (getOrCreateMutex c w))) c r = fnlPath (driver w) c r"
    "tmpPath (driver (snd (getOrCreateMutex c w))) c r = tmpPath (driver w) c r"
    by (simp_all add: fnlPath_def tmpPath_def)
  then show ?thesis
    using c r unfolding Write_def Let_def
    by (simp split: sum.splits prod.splits option.splits)
qed

lemma Write_outcome:
  assumes W: "Write M c r v w = (err, w')"
  defines "F \<equiv> fnlPath (driver w) c r"
  shows "(\<exists>e. err = Some e \<and> file_bytes (disk w') F = file_bytes (disk w) F)
       \<or> (err = None \<and> (\<exists>b. M v [] [tab] = Inr b \<and> os_ReadFile (disk w') F = Inr (b @ [newline])))"
proof (cases "c = [] \<or> r = []")
  case True
  from Write_reject [OF this, of M v w] W show ?thesis by auto
next
  case False
  then have c: "c \<noteq> []" and r: "r \<noteq> []" by auto
  define w1 where "w1 = snd (getOrCreateMutex c w)"
  define D where "D = Join [dir (driver w), c]"
  define T where "T = tmpPath (driver w) c r"
  note steps = Write_steps [OF c r, of M v w, folded w1_def D_def F_def T_def]
  have Fne: "F \<noteq> []" using c by (simp add: F_def fnlPath_Clean)
  obtain P l where F: "resolve wd F = P wd @ [l wd]" and T: "resolve wd T = P wd @ [l wd @ ''.tmp'']" for wd
    using fnl_tmp_siblings [OF c, of _ "driver w" r] unfolding F_def T_def by metis
  show ?thesis
  proof (cases "M v [] [tab]")
    case (Inl e)
    with steps W show ?thesis by (auto simp: w1_def)
  next
    case (Inr b)
    obtain e1 fs1 where mk: "os_MkdirAll (disk w) D = (e1, fs1)" by force
    have b1: "file_bytes fs1 F = file_bytes (disk w) F" using mk by (rule os_MkdirAll_bytes)
    show ?thesis
    proof (cases e1)
      case (Some e)
      with steps W Inr mk b1 show ?thesis by auto
    next
      case None
      obtain e2 fs2 where wr: "os_WriteFile fs1 T (b @ [newline]) = (e2, fs2)" by force
      show ?thesis
      proof (cases e2)
        case (Some e)
        with os_WriteFile_fail wr have "fs2 = fs1" by blast
        with steps W Inr mk None wr Some b1 show ?thesis by auto
      next
        case w_ok: None
        note wr' = wr [unfolded w_ok]
        have cw: "cwd fs2 = cwd fs1" using wr' by (rule os_WriteFile_ok(1))
        have lt: "lookup (tree fs2) (resolve (cwd fs1) T) = Inr (File (b @ [newline]))"
          using wr' by (rule os_WriteFile_ok(2))
        have "lookup (tree fs2) (resolve (cwd fs1) F) = lookup (tree fs1) (resolve (cwd fs1) F)"
          using wr' by (rule os_WriteFile_ok(3)) (simp_all add: F T)
        then have b2: "file_bytes fs2 F = file_bytes fs1 F"
          using cw by (simp add: file_bytes_file_at file_at_def)
        obtain e3 fs3 where rn: "os_Rename fs2 T F = (e3, fs3)" by force
        show ?thesis
        proof (cases e3)
          case (Some e)
          with os_Rename_fail rn have "fs3 = fs2" by blast
          with steps W Inr mk None wr w_ok rn Some b1 b2 show ?thesis by auto
        next
          case r_ok: None
          note rn' = rn [unfolded r_ok]
          have "lookup (tree fs3) (resolve (cwd fs2) F) = lookup (tree fs2) (resolve (cwd fs2) T)"
            using rn' by (rule os_Rename_ok(2))
          moreover have "cwd fs3 = cwd fs2" using rn' by (rule os_Rename_ok(1))
          ultimately have "os_ReadFile fs3 F = Inr (b @ [newline])"
            using lt cw Fne by (simp add: os_ReadFile_def)
          with steps W Inr mk None wr w_ok rn r_ok show ?thesis by auto
        qed
      qed
    qed
  qed
qed

lemma WriteFile_tmp_keeps_final:
  assumes c: "c \<noteq> []" and wr: "os_WriteFile fs1 (tmpPath d c r) data = (e2, fs2)"
  shows "file_bytes fs2 (fnlPath d c r) = file_bytes fs1 (fnlPath d c r)"
proof (cases e2)
  case (Some e)
  with os_WriteFile_fail wr have "fs2 = fs1" by blast
  then show ?thesis by simp
next
  case None
  note wr' = wr [unfolded None]
  obtain P l where F: "resolve (cwd fs1) (fnlPath d c r) = P @ [l]"
    and T: "resolve (cwd fs1) (tmpPath d c r) = P @ [l @ ''.tmp'']"
    using fnl_tmp_siblings [OF c] by blast
  have cw: "cwd fs2 = cwd fs1" using wr' by (rule os_WriteFile_ok(1))
  have "lookup (tree fs2) (resolve (cwd fs1) (fnlPath d c r))
      = lookup (tree fs1) (resolve (cwd fs1) (fnlPath d c r))"
    using wr' by (rule os_WriteFile_ok(3)) (simp_all add: F T)
  then show ?thesis
    using cw by (simp add: file_bytes_file_at file_at_def)
qed

lemma Rename_tmp_final:
  assumes c: "c \<noteq> []" and wr: "os_WriteFile fs1 (tmpPath d c r) data = (None, fs2)"
    and rn: "os_Rename fs2 (tmpPath d c r) (fnlPath d c r) = (e3, fs3)"
  shows "file_bytes fs3 (fnlPath d c r)
       = (if e3 = None then Some data else file_bytes fs2 (fnlPath d c r))"
proof (cases e3)
  case (Some e)
  with os_Rename_fail rn have "fs3 = fs2" by blast
  with Some show ?thesis by simp
next
  case None
  note rn' = rn [unfolded None]
  have Fne: "fnlPath d c r \<noteq> []" using c by (simp add: fnlPath_Clean)
  have cw: "cwd fs2 = cwd fs1" using wr by (rule os_WriteFile_ok(1))
  have lt: "lookup (tree fs2) (resolve (cwd fs1) (tmpPath d c r)) = Inr (File data)"
    using wr by (rule os_WriteFile_ok(2))
  have "lookup (tree fs3) (resolve (cwd fs2) (fnlPath d c r))
      = lookup (tree fs2) (resolve (cwd fs2) (tmpPath d c r))"
    using rn' by (rule os_Rename_ok(2))
  moreover have "cwd fs3 = cwd fs2" using rn' by (rule os_Rename_ok(1))
  ultimately have "os_ReadFile fs3 (fnlPath d c r) = Inr data"
    using lt cw Fne by (simp add: os_ReadFile_def)
  with None show ?thesis by (simp add: file_bytes_def)
qed

lemma Write_trace_last: "last (Write_trace M c r v w) = disk (snd (Write M c r v w))"
proof (cases "c = [] \<or> r = []")
  case True
  then show ?thesis by (auto simp: Write_trace_def Write_def)
next
  case False
  then have c: "c \<noteq> []" and r: "r \<noteq> []" by auto
  show ?thesis
    using c r unfolding Write_steps [OF c r] Write_trace_def
    by (auto split: sum.splits prod.splits option.splits)
qed

lemma Write_trace_bytes:
  assumes "fs \<in> set (Write_trace M c r v w)"
  shows "file_bytes fs (fnlPath (driver w) c r) = file_bytes (disk w) (fnlPath (driver w) c r)
       \<or> (\<exists>b. M v [] [tab] = Inr b \<and> file_bytes fs (fnlPath (driver w) c r) = Some (b @ [newline]))"
proof (cases "c = [] \<or> r = []")
  case True
  with assms show ?thesis by (auto simp: Write_trace_def)
next
  case False
  then have c: "c \<noteq> []" and r: "r \<noteq> []" by auto
  let ?F = "fnlPath (driver w) c r" and ?T = "tmpPath (driver w) c r"
  show ?thesis
  proof (cases "M v [] [tab]")
    case (Inl e)
    with assms c r show ?thesis by (simp add: Write_trace_def)
  next
    case (Inr b)
    obtain e1 fs1 where mk: "os_MkdirAll (disk w) (Join [dir (driver w), c]) = (e1, fs1)" by force
    have b1: "file_bytes fs1 ?F = file_bytes (disk w) ?F" using mk by (rule os_MkdirAll_bytes)
    obtain e2 fs2 where wr: "os_WriteFile fs1 ?T (b @ [newline]) = (e2, fs2)" by force
    have b2: "file_bytes fs2 ?F = file_bytes fs1 ?F"
      using c wr by (rule WriteFile_tmp_keeps_final)
    obtain e3 fs3 where rn: "os_Rename fs2 ?T ?F = (e3, fs3)" by force
    have b3: "e2 = None \<Longrightarrow> file_bytes fs3 ?F = (if e3 = None then Some (b @ [newline]) else file_bytes fs2 ?F)"
      using Rename_tmp_final [OF c _ rn] wr by simp
    from assms c r Inr mk wr rn have "fs \<in> {disk w, fs1, fs2} \<or> (e2 = None \<and> fs = fs3)"
      by (auto simp: Write_trace_def split: option.splits)
    with b1 b2 b3 Inr show ?thesis by (auto split: if_splits)
  qed
qed

lemma Write_dir: "dir (driver (snd (Write M c r v w))) = dir (driver w)"
proof (cases "c = [] \<or> r = []")
  case True
  then show ?thesis by (auto simp: Write_def)
next
  case False
  then have c: "c \<noteq> []" and r: "r \<noteq> []" by auto
  show ?thesis
    unfolding Write_steps [OF c r]
    by (auto split: sum.splits prod.splits option.splits)
qed

lemma os_ReadFile_Stat: "os_ReadFile fs p = Inr b \<Longrightarrow> os_Stat fs p = Inr (File b)"
  by (auto simp: os_ReadFile_def os_Stat_def split: if_splits sum.splits node.splits)

lemma os_Stat_ReadFile: "os_Stat fs p = Inl e \<Longrightarrow> os_ReadFile fs p = Inl e"
  by (auto simp: os_ReadFile_def os_Stat_def split: if_splits sum.splits node.splits)

lemma stat_found_json: "os_Stat fs (p @ ''.json'') = Inr n \<Longrightarrow> snd (stat fs p) = None"
  by (auto simp: stat_def split: sum.splits)

lemma stat_found: "os_Stat fs p = Inr n \<Longrightarrow> stat fs p = (Some n, None)"
  by (simp add: stat_def)

lemma Read_found:
  assumes "c \<noteq> []" and "r \<noteq> []"
    and "os_ReadFile (disk w) (record_path (driver w) c r @ ''.json'') = Inr b"
  shows "Read U c r out w = U b out"
  using assms stat_found_json [OF os_ReadFile_Stat [OF assms(3)]]
  by (simp add: Read_def)

lemma ordinary_last_resolve: "ordinary (last (splitc p)) \<Longrightarrow> resolve wd p \<noteq> []"
  by (simp add: resolve_ordinary_last)

lemma os_RemoveAll_entry:
  assumes o: "ordinary (last (splitc p))"
    and l: "lookup (tree fs) (resolve (cwd fs) p) = Inr n"
  shows "os_RemoveAll fs p = (None, fs\<lparr>tree := del (tree fs) (resolve (cwd fs) p)\<rparr>)"
proof -
  have "p \<noteq> []" using o by (rule ordinary_last_nonempty)
  moreover have "\<not> endsWithDot p" using o by (rule ordinary_not_endsWithDot)
  moreover have "resolve (cwd fs) p \<noteq> []" using o by (rule ordinary_last_resolve)
  moreover have "last (splitc p) \<noteq> ''..''" using o by (auto simp: ordinary_def)
  ultimately show ?thesis using l by (simp add: os_RemoveAll_def)
qed

lemma os_RemoveAll_absent:
  assumes o: "ordinary (last (splitc p))" and a: "os_Stat fs p = Inl ENOENT"
  shows "os_RemoveAll fs p = (None, fs)"
proof -
  have "p \<noteq> []" using o by (rule ordinary_last_nonempty)
  moreover have "\<not> endsWithDot p" using o by (rule ordinary_not_endsWithDot)
  ultimately show ?thesis using a by (simp add: os_RemoveAll_def os_Stat_def)
qed

lemma lookup_append: "lookup t p = Inr n \<Longrightarrow> lookup t (p @ q) = lookup n q"
  by (induction p arbitrary: t) (auto split: node.splits option.splits)

lemma Delete_steps:
  "Delete c r w =
     (case stat (disk w) (Delete_dir (driver w) c r) of
        (None, err) \<Rightarrow>
          (Some (Errorf (''unable to find file/directory name '' @ Delete_path c r)),
           snd (getOrCreateMutex c w))
      | (Some fi, err) \<Rightarrow>
          if err \<noteq> None then
            (Some (Errorf (''unable to find file/directory name '' @ Delete_path c r)),
             snd (getOrCreateMutex c w))
          else if IsDir fi then
            (case os_RemoveAll (disk w) (Delete_dir (driver w) c r) of
               (e, fs) \<Rightarrow> (map_option PathError e, (snd (getOrCreateMutex c w))\<lparr>disk := fs\<rparr>))
          else if IsRegular fi then
            (case os_RemoveAll (disk w) (Delete_dir (driver w) c r @ ''.json'') of
               (e, fs) \<Rightarrow> (map_option PathError e, (snd (getOrCreateMutex c w))\<lparr>disk := fs\<rparr>))
          else (None, snd (getOrCreateMutex c w)))"
proof -
  have "Delete_dir (driver (snd (getOrCreateMutex c w))) c r = Delete_dir (driver w) c r"
    by (simp add: Delete_dir_def)
  then show ?thesis
    unfolding Delete_def Let_def by (auto split: prod.splits option.splits)
qed

text \<open>Deleting a record that the second probe of \<open>stat\<close> finds.\<close>

lemma Delete_regular_json:
  assumes o: "ordinary (last (splitc (Delete_dir (driver w) c r)))"
    and bare: "os_Stat (disk w) (Delete_dir (driver w) c r) = Inl ENOENT"
    and rec: "os_ReadFile (disk w) (Delete_dir (driver w) c r @ ''.json'') = Inr b"
  shows "fst (Delete c r w) = None"
    and "os_Stat (disk (snd (Delete c r w))) (Delete_dir (driver w) c r @ ''.json'') = Inl ENOENT"
proof -
  let ?T = "Delete_dir (driver w) c r" and ?fs = "disk w"
  let ?cs = "resolve (cwd ?fs) (?T @ ''.json'')"
  have oj: "ordinary (last (splitc (?T @ ''.json'')))" by (rule ordinary_last_json)
  have st: "os_Stat ?fs (?T @ ''.json'') = Inr (File b)" using rec by (rule os_ReadFile_Stat)
  then have lk: "lookup (tree ?fs) ?cs = Inr (File b)"
    by (simp add: os_Stat_def split: if_splits)
  have s: "stat ?fs ?T = (Some (File b), None)"
    using bare st by (simp add: stat_def)
  have rm: "os_RemoveAll ?fs (?T @ ''.json'') = (None, ?fs\<lparr>tree := del (tree ?fs) ?cs\<rparr>)"
    using oj lk by (rule os_RemoveAll_entry)
  have D: "Delete c r w = (None, (snd (getOrCreateMutex c w))\<lparr>disk := ?fs\<lparr>tree := del (tree ?fs) ?cs\<rparr>\<rparr>)"
    unfolding Delete_steps s using rm by (simp add: IsDir_def IsRegular_def)
  show "fst (Delete c r w) = None" by (simp add: D)
  have "lookup (del (tree ?fs) ?cs) ?cs = Inl ENOENT"
    using lk ordinary_last_resolve [OF oj] by (rule lookup_del_ENOENT)
  then show "os_Stat (disk (snd (Delete c r w))) (?T @ ''.json'') = Inl ENOENT"
    by (simp add: D os_Stat_def)
qed

text \<open>Deleting with a name that already carries the suffix.\<close>

lemma Delete_suffixed_noop:
  assumes rec: "os_ReadFile (disk w) (Delete_dir (driver w) c s) = Inr b"
    and none: "os_Stat (disk w) (Delete_dir (driver w) c s @ ''.json'') = Inl ENOENT"
  shows "fst (Delete c s w) = None" and "disk (snd (Delete c s w)) = disk w"
proof -
  let ?T = "Delete_dir (driver w) c s" and ?fs = "disk w"
  have oj: "ordinary (last (splitc (?T @ ''.json'')))" by (rule ordinary_last_json)
  have st: "stat ?fs ?T = (Some (File b), None)"
    using os_ReadFile_Stat [OF rec] by (rule stat_found)
  have rm: "os_RemoveAll ?fs (?T @ ''.json'') = (None, ?fs)"
    using oj none by (rule os_RemoveAll_absent)
  have D: "Delete c s w = (None, (snd (getOrCreateMutex c w))\<lparr>disk := ?fs\<rparr>)"
    unfolding Delete_steps st using rm by (simp add: IsDir_def IsRegular_def)
  show "fst (Delete c s w) = None" "disk (snd (Delete c s w)) = disk w"
    by (simp_all add: D)
qed

lemma record_path_suffix:
  assumes "c \<noteq> []" and "ordinary (last (splitc r))" and "Separator \<notin> set s"
  shows "record_path d c (r @ s) = record_path d c r @ s"
proof -
  let ?b = "if dir d = [] then c else dir d @ Separator # c"
  have "ordinary (last (splitc (?b @ Separator # r)))"
    using assms(2) by (simp only: last_splitc_sep)
  then have "Clean ((?b @ Separator # r) @ s) = Clean (?b @ Separator # r) @ s"
    using assms(3) by (rule Clean_suffix)
  then show ?thesis
    using assms(1) by (simp add: record_path_Clean)
qed

lemma record_path_last:
  assumes "c \<noteq> []" and "ordinary (last (splitc r))"
  shows "last (splitc (record_path d c r)) = last (splitc r)"
  using assms by (simp add: record_path_Clean last_splitc_Clean last_splitc_sep)

lemma Read_missing_json:
  assumes "c \<noteq> []" and "r \<noteq> []"
    and "os_Stat (disk w) (record_path (driver w) c r @ ''.json'') = Inl e"
  shows "Read U c r out w = Inl (PathError e)"
proof (cases "os_Stat (disk w) (record_path (driver w) c r)")
  case (Inr n)
  then have "snd (stat (disk w) (record_path (driver w) c r)) = None" by (simp add: stat_found)
  then show ?thesis using assms os_Stat_ReadFile [OF assms(3)] by (simp add: Read_def)
next
  case (Inl e0)
  then show ?thesis
    using assms os_Stat_ReadFile [OF assms(3)] by (simp add: Read_def stat_def)
qed

lemma Read_empty_name:
  "Read U [] r out w = Inl (Errorf ''Missing collection - no place to read record!'')"
  "c \<noteq> [] \<Longrightarrow>
   Read U c [] out w = Inl (Errorf ''Missing resource - unable to read record (no name)'')"
  by (simp_all add: Read_def)

lemma Delete_not_found:
  assumes "isl (os_Stat (disk w) (Delete_dir (driver w) c r))"
    and "isl (os_Stat (disk w) (Delete_dir (driver w) c r @ ''.json''))"
  shows "Delete c r w =
     (Some (Errorf (''unable to find file/directory name '' @ Delete_path c r)),
      snd (getOrCreateMutex c w))"
proof -
  obtain e e' where "os_Stat (disk w) (Delete_dir (driver w) c r) = Inl e"
    and "os_Stat (disk w) (Delete_dir (driver w) c r @ ''.json'') = Inl e'"
    using assms by (auto simp: isl_def)
  then have "\<exists>err. stat (disk w) (Delete_dir (driver w) c r) = (None, err)"
    by (simp add: stat_def)
  then show ?thesis unfolding Delete_steps by auto
qed

text \<open>Deleting a directory that the first probe of \<open>stat\<close> finds.\<close>

lemma Delete_directory:
  assumes o: "ordinary (last (splitc (Delete_dir (driver w) c r)))"
    and d: "os_Stat (disk w) (Delete_dir (driver w) c r) = Inr (Dir es)"
  shows "fst (Delete c r w) = None"
    and "disk (snd (Delete c r w))
       = (disk w)\<lparr>tree := del (tree (disk w)) (resolve (cwd (disk w)) (Delete_dir (driver w) c r))\<rparr>"
    and "lookup (tree (disk (snd (Delete c r w))))
           (resolve (cwd (disk w)) (Delete_dir (driver w) c r) @ q) = Inl ENOENT"
    and "\<not> prefix (resolve (cwd (disk w)) (Delete_dir (driver w) c r)) p
         \<Longrightarrow> file_at (tree (disk (snd (Delete c r w)))) p = file_at (tree (disk w)) p"
proof -
  let ?T = "Delete_dir (driver w) c r" and ?fs = "disk w"
  let ?cs = "resolve (cwd ?fs) ?T"
  have lk: "lookup (tree ?fs) ?cs = Inr (Dir es)"
    using d by (simp add: os_Stat_def split: if_splits)
  have s: "stat ?fs ?T = (Some (Dir es), None)" using d by (rule stat_found)
  have rm: "os_RemoveAll ?fs ?T = (None, ?fs\<lparr>tree := del (tree ?fs) ?cs\<rparr>)"
    using o lk by (rule os_RemoveAll_entry)
  have D: "Delete c r w = (None, (snd (getOrCreateMutex c w))\<lparr>disk := ?fs\<lparr>tree := del (tree ?fs) ?cs\<rparr>\<rparr>)"
    unfolding Delete_steps s using rm by (simp add: IsDir_def)
  show "fst (Delete c r w) = None" by (simp add: D)
  show "disk (snd (Delete c r w)) = ?fs\<lparr>tree := del (tree ?fs) ?cs\<rparr>" by (simp add: D)
  have "lookup (del (tree ?fs) ?cs) ?cs = Inl ENOENT"
    using lk ordinary_last_resolve [OF o] by (rule lookup_del_ENOENT)
  then show "lookup (tree (disk (snd (Delete c r w)))) (?cs @ q) = Inl ENOENT"
    by (simp add: D lookup_append_err)
  show "file_at (tree (disk (snd (Delete c r w)))) p = file_at (tree ?fs) p" if "\<not> prefix ?cs p"
    using that by (simp add: D file_at_del_other)
qed

lemma Delete_dir_collection:
  assumes "c \<noteq> []" and "\<not> rooted c"
  shows "Delete_dir d c [] = Join [dir d, c]"
proof -
  have "Delete_dir d c [] = record_path d c []" using assms by (rule Delete_dir_record_path)
  also have "\<dots> = Join [dir d, c]"
    using assms(1) Clean_trailing_sep [of "dir d @ Separator # c"] Clean_trailing_sep [of c]
    by (simp add: record_path_Clean Join2)
  finally show ?thesis .
qed

lemma Delete_dir_collection_any:
  assumes "\<not> rooted c"
  shows "Delete_dir d c [] = Join [dir d, c]"
proof (cases "c = []")
  case True
  then show ?thesis by (simp add: Delete_dir_def Delete_path_def Join_def)
next
  case False
  then show ?thesis using assms by (rule Delete_dir_collection)
qed

lemma New_dir: "dir (fst (New d fs)) = Clean d" "Clean (dir (fst (New d fs))) = dir (fst (New d fs))"
  by (auto simp: New_def split: sum.splits prod.splits)

lemma Delete_dir_root:
  assumes "Clean (dir d) = dir d"
  shows "Delete_dir d [] [] = dir d"
proof -
  have ne: "dir d \<noteq> []" using assms Clean_nonempty [of "dir d"] by auto
  then have "Delete_dir d [] [] = Clean (dir d @ [Separator])"
    by (simp add: Delete_dir_def Delete_path_def Join_def)
  then show ?thesis using assms ne by (simp add: Clean_trailing_sep)
qed

lemma resolve_child:
  assumes "D \<noteq> []" and "ordinary name"
  shows "resolve wd (Join [D, name]) = resolve wd D @ [name]"
proof -
  have n: "Separator \<notin> set name" "name \<noteq> []" using assms(2) by (auto simp: ordinary_def)
  have "Join [D, name] = Clean (D @ Separator # name)"
    using assms(1) by (simp add: Join_def)
  then have "resolve wd (Join [D, name]) = resolve wd (D @ Separator # name)"
    by (simp only: resolve_Clean)
  also have "\<dots> = resolve wd D @ [name]"
    using assms(1) n(1) os_step_ordinary [OF assms(2)]
    by (simp add: resolve_def splitc_append_sep splitc_nosep)
  finally show ?thesis .
qed

lemma os_ReadFile_child:
  assumes "os_Stat fs D = Inr (Dir es)" and "ordinary name"
  shows "os_ReadFile fs (Join [D, name]) =
     (case map_of es name of
        None \<Rightarrow> Inl ENOENT
      | Some n \<Rightarrow> (case n of File b \<Rightarrow> Inr b | Dir _ \<Rightarrow> Inl EISDIR | Irregular \<Rightarrow> Inl ENXIO))"
proof -
  have D: "D \<noteq> []" and lk: "lookup (tree fs) (resolve (cwd fs) D) = Inr (Dir es)"
    using assms(1) by (auto simp: os_Stat_def split: if_splits)
  have "Join [D, name] \<noteq> []" using D by (simp add: Join_def)
  moreover have "lookup (tree fs) (resolve (cwd fs) (Join [D, name])) = lookup (Dir es) [name]"
    using lookup_append [OF lk] by (simp only: resolve_child [OF D assms(2)])
  ultimately show ?thesis
    by (simp add: os_ReadFile_def split: option.splits)
qed

lemma os_ReadFile_child_file:
  assumes "os_Stat fs D = Inr (Dir es)" and "ordinary name"
  shows "os_ReadFile fs (Join [D, name]) = Inr b \<longleftrightarrow> map_of es name = Some (File b)"
  unfolding os_ReadFile_child [OF assms]
  by (auto split: option.splits node.splits)

lemma read_records_Inr:
  "read_records fs D names acc = Inr rs \<longleftrightarrow>
     (\<exists>bs. rs = acc @ bs \<and> list_all2 (\<lambda>name b. os_ReadFile fs (Join [D, name]) = Inr b) names bs)"
proof (induction names arbitrary: acc)
  case Nil
  then show ?case by auto
next
  case (Cons name names)
  show ?case
  proof (cases "os_ReadFile fs (Join [D, name])")
    case (Inl e)
    then show ?thesis by (auto simp: list_all2_Cons1)
  next
    case (Inr b)
    then show ?thesis by (auto simp: Cons.IH list_all2_Cons1)
  qed
qed

lemma read_records_Inl: "read_records fs D names acc = Inl e \<Longrightarrow> \<exists>n. e = PathError n"
  by (induction names arbitrary: acc) (auto split: sum.splits)

lemma list_all2_cong_set:
  "(\<And>x y. x \<in> set xs \<Longrightarrow> P x y = Q x y) \<Longrightarrow> list_all2 P xs ys = list_all2 Q xs ys"
  by (induction xs arbitrary: ys) (auto simp: list_all2_Cons1)

lemma list_all2_left_ex: "list_all2 P xs ys \<Longrightarrow> x \<in> set xs \<Longrightarrow> \<exists>y. P x y"
  by (induction rule: list_all2_induct) auto

lemma ReadAll_steps:
  assumes "c \<noteq> []" and "os_Stat (disk w) (Join [dir (driver w), c]) = Inr (Dir es)"
  shows "ReadAll c w = read_records (disk w) (Join [dir (driver w), c]) (sort (map fst es)) []"
proof -
  have "os_ReadDir (disk w) (Join [dir (driver w), c]) = Inr (sort (map fst es))"
    using assms(2) by (auto simp: os_ReadDir_def os_Stat_def split: if_splits)
  then show ?thesis
    using assms stat_found [OF assms(2)] by (simp add: ReadAll_def)
qed

lemma gocm_steps_sequential:
  "run c c' [True, True, True] (AtLookup, p2, w)
     = (Returned (fst (getOrCreateMutex c w)), p2, snd (getOrCreateMutex c w))"
  by (cases "mutexes (driver w) c") (simp_all add: getOrCreateMutex_def)

lemma getOrCreateMutex_again:
  "fst (getOrCreateMutex c (snd (getOrCreateMutex c w))) = fst (getOrCreateMutex c w)"
  by (cases "mutexes (driver w) c") (simp_all add: getOrCreateMutex_def)

section \<open>Properties of the driver\<close>

text \<open>
  C6. For every value \<open>v\<close>, \<^verbatim>\<open>Write\<close> with an empty collection name (whatever the
  resource, so also \<^verbatim>\<open>Write("", "x", v)\<close>) and \<^verbatim>\<open>Write\<close> with a non-empty collection
  name and an empty resource name (so also \<^verbatim>\<open>Write("x", "", v)\<close>) fail with the
  validation error of the missing name, and they leave the whole state as it was: no
  directory is created, no file is written, and not even a lock is registered.
\<close>

theorem Write_missing_name_no_mutation:
  "Write MarshalIndent [] r v w
     = (Some (Errorf ''Missing collection - no place to save record!''), w)
   \<and> Write MarshalIndent (x # c) [] v w
     = (Some (Errorf ''Missing resource - no place to save record (no name)''), w)"
  by (simp add: Write_def)

text \<open>
  C2. \<^verbatim>\<open>Write\<close> is atomic with respect to the final file \<open>fnlPath\<close>. Whenever a call
  returns an error (the encoder failed, \<^verbatim>\<open>MkdirAll\<close> failed, the write of the temporary
  file failed, or the rename failed) the bytes of the final file are what they were before
  the call; when it returns no error they are the complete new encoding. Between the
  calls of package \<^verbatim>\<open>os\<close> that \<^verbatim>\<open>Write\<close> makes the same holds: in every file system of
  \<open>Write_trace\<close> the final file has its old bytes or the complete new ones. This is for
  every collection, resource, value, encoder and state. A crash inside one call of the
  operating system is below the grain of the model.
\<close>

theorem Write_atomic_final_file:
  "(fst (Write M c r v w) \<noteq> None \<longrightarrow>
      file_bytes (disk (snd (Write M c r v w))) (fnlPath (driver w) c r)
        = file_bytes (disk w) (fnlPath (driver w) c r))
   \<and> (fst (Write M c r v w) = None \<longrightarrow>
        (\<exists>b. M v [] [tab] = Inr b
           \<and> file_bytes (disk (snd (Write M c r v w))) (fnlPath (driver w) c r)
               = Some (b @ [newline])))
   \<and> (\<forall>fs\<in>set (Write_trace M c r v w).
         file_bytes fs (fnlPath (driver w) c r) = file_bytes (disk w) (fnlPath (driver w) c r)
         \<or> (\<exists>b. M v [] [tab] = Inr b
               \<and> file_bytes fs (fnlPath (driver w) c r) = Some (b @ [newline])))
   \<and> last (Write_trace M c r v w) = disk (snd (Write M c r v w))"
proof -
  obtain err w' where W: "Write M c r v w = (err, w')" by force
  from Write_outcome [OF W] Write_trace_bytes [of _ M c r v w] Write_trace_last [of M c r v w] W
  show ?thesis by (auto simp: file_bytes_def)
qed

theorem Write_atomic_final_file_witness:
  "fst (Write sample_MarshalIndent ''staff'' ''Paul'' ''P'' demo_world) = Some (PathError EISDIR)
   \<and> file_bytes (disk (snd (Write sample_MarshalIndent ''staff'' ''Paul'' ''P'' demo_world)))
        ''db/staff/Paul.json'' = Some (quoted ''Paul'')
   \<and> fst (Write sample_MarshalIndent ''users'' ''John'' ''Jo'' demo_world) = None
   \<and> file_bytes (disk (snd (Write sample_MarshalIndent ''users'' ''John'' ''Jo'' demo_world)))
        ''db/users/John.json'' = Some (quoted ''Jo'' @ [newline])
   \<and> map (\<lambda>fs. file_bytes fs ''db/users/John.json'')
        (Write_trace sample_MarshalIndent ''users'' ''John'' ''Jo'' demo_world)
      = [Some (quoted ''John''), Some (quoted ''John''), Some (quoted ''John''),
         Some (quoted ''Jo'' @ [newline])]"
proof -
  have p1: "fnlPath (driver demo_world) ''staff'' ''Paul'' = ''db/staff/Paul.json''"
    and p2: "fnlPath (driver demo_world) ''users'' ''John'' = ''db/users/John.json''"
    by code_simp+
  have f1: "fst (Write sample_MarshalIndent ''staff'' ''Paul'' ''P'' demo_world) = Some (PathError EISDIR)"
    and f2: "fst (Write sample_MarshalIndent ''users'' ''John'' ''Jo'' demo_world) = None"
    and o1: "file_bytes (disk demo_world) ''db/staff/Paul.json'' = Some (quoted ''Paul'')"
    by code_simp+
  have t: "map (\<lambda>fs. file_bytes fs ''db/users/John.json'')
        (Write_trace sample_MarshalIndent ''users'' ''John'' ''Jo'' demo_world)
      = [Some (quoted ''John''), Some (quoted ''John''), Some (quoted ''John''),
         Some (quoted ''Jo'' @ [newline])]"
    by code_simp
  have m: "sample_MarshalIndent ''Jo'' [] [tab] = Inr b \<longleftrightarrow> b = quoted ''Jo''" for b
    by (auto simp: sample_MarshalIndent_def)
  from Write_atomic_final_file [of sample_MarshalIndent "''staff''" "''Paul''" "''P''" demo_world]
    Write_atomic_final_file [of sample_MarshalIndent "''users''" "''John''" "''Jo''" demo_world]
  show ?thesis
    unfolding p1 p2 f1 f2 o1 m using t by auto
qed

text \<open>
  C9. When \<^verbatim>\<open>Write\<close> returns no error, the final file holds exactly what
  \<^verbatim>\<open>json.MarshalIndent\<close> returned for the value with the empty prefix and one tab as the
  indentation unit, followed by one newline character.
\<close>

theorem Write_persists_indented_json:
  assumes "Write MarshalIndent c r v w = (None, w')"
  shows "\<exists>b. MarshalIndent v [] [tab] = Inr b
           \<and> os_ReadFile (disk w') (fnlPath (driver w) c r) = Inr (b @ [newline])"
  using Write_outcome [OF assms] by simp

theorem Write_persists_indented_json_witness:
  "Write sample_MarshalIndent ''users'' ''John'' ''Jo'' demo_world
     = (None, snd (Write sample_MarshalIndent ''users'' ''John'' ''Jo'' demo_world))
   \<and> os_ReadFile (disk (snd (Write sample_MarshalIndent ''users'' ''John'' ''Jo'' demo_world)))
        ''db/users/John.json'' = Inr (quoted ''Jo'' @ [newline])"
proof -
  have f: "fst (Write sample_MarshalIndent ''users'' ''John'' ''Jo'' demo_world) = None"
    and p: "fnlPath (driver demo_world) ''users'' ''John'' = ''db/users/John.json''"
    by code_simp+
  then have W: "Write sample_MarshalIndent ''users'' ''John'' ''Jo'' demo_world
     = (None, snd (Write sample_MarshalIndent ''users'' ''John'' ''Jo'' demo_world))"
    by (metis prod.collapse)
  from Write_persists_indented_json [OF W] W show ?thesis
    by (auto simp: p sample_MarshalIndent_def)
qed

text \<open>
  C1, as amended. For a resource name whose last path element is an ordinary name (not
  empty, not \<^verbatim>\<open>.\<close> and not \<^verbatim>\<open>..\<close>) and a value that the decoder gets back from its
  encoding followed by a newline: when \<^verbatim>\<open>Write(c, r, v)\<close> returns no error,
  \<^verbatim>\<open>Read(c, r, &out)\<close> on the resulting state succeeds and gives \<open>v\<close>.
\<close>

theorem Write_then_Read_roundtrip:
  assumes W: "Write MarshalIndent c r v w = (None, w')"
    and r: "ordinary (last (splitc r))"
    and codec: "\<forall>b. MarshalIndent v [] [tab] = Inr b \<longrightarrow> Unmarshal (b @ [newline]) out = Inr v"
  shows "Read Unmarshal c r out w' = Inr v"
proof -
  have ne: "c \<noteq> []" "r \<noteq> []"
    using Write_reject [of c r MarshalIndent v w] W by auto
  obtain b where b: "MarshalIndent v [] [tab] = Inr b"
    and f: "os_ReadFile (disk w') (fnlPath (driver w) c r) = Inr (b @ [newline])"
    using Write_outcome [OF W] by auto
  have "dir (driver w') = dir (driver w)" using Write_dir [of MarshalIndent c r v w] W by simp
  then have "record_path (driver w') c r @ ''.json'' = fnlPath (driver w) c r"
    using record_path_json [OF ne(1) r, of "driver w'"] by (simp add: fnlPath_def)
  with f have "Read Unmarshal c r out w' = Unmarshal (b @ [newline]) out"
    by (intro Read_found ne) simp
  with codec b show ?thesis by simp
qed

theorem Write_then_Read_roundtrip_witness:
  "Write sample_MarshalIndent ''users'' ''Paul'' ''P'' demo_world
     = (None, snd (Write sample_MarshalIndent ''users'' ''Paul'' ''P'' demo_world))
   \<and> ordinary (last (splitc ''Paul''))
   \<and> sample_MarshalIndent ''P'' [] [tab] = Inr (quoted ''P'')
   \<and> sample_Unmarshal (quoted ''P'' @ [newline]) [] = Inr ''P''
   \<and> Read sample_Unmarshal ''users'' ''Paul'' []
        (snd (Write sample_MarshalIndent ''users'' ''Paul'' ''P'' demo_world)) = Inr ''P''"
proof -
  have f: "fst (Write sample_MarshalIndent ''users'' ''Paul'' ''P'' demo_world) = None"
    by code_simp
  then have W: "Write sample_MarshalIndent ''users'' ''Paul'' ''P'' demo_world
     = (None, snd (Write sample_MarshalIndent ''users'' ''Paul'' ''P'' demo_world))"
    by (metis prod.collapse)
  have o: "ordinary (last (splitc ''Paul''))" by code_simp
  have u: "sample_Unmarshal (quoted ''P'' @ [newline]) [] = Inr ''P''" by code_simp
  then have codec: "\<forall>b. sample_MarshalIndent ''P'' [] [tab] = Inr b
      \<longrightarrow> sample_Unmarshal (b @ [newline]) [] = Inr ''P''"
    by (simp add: sample_MarshalIndent_def)
  from Write_then_Read_roundtrip [of sample_MarshalIndent "''users''" "''Paul''" "''P''" demo_world
      "snd (Write sample_MarshalIndent ''users'' ''Paul'' ''P'' demo_world)" sample_Unmarshal "[]",
      OF W o codec] W o u
  show ?thesis by (simp add: sample_MarshalIndent_def)
qed

text \<open>
  C1, as stated, fails for the non-empty resource name \<^verbatim>\<open>..\<close>: \<^verbatim>\<open>Write\<close> stores the
  value in \<^verbatim>\<open>db/users/...json\<close> and returns no error, while \<^verbatim>\<open>Read\<close> cleans
  \<^verbatim>\<open>db/users/..\<close> to \<^verbatim>\<open>db\<close>, finds that directory, and then fails to open
  \<^verbatim>\<open>db.json\<close>.
\<close>

theorem Write_then_Read_dotdot_counterexample:
  "''users'' \<noteq> [] \<and> ''..'' \<noteq> []
   \<and> sample_MarshalIndent ''P'' [] [tab] = Inr (quoted ''P'')
   \<and> sample_Unmarshal (quoted ''P'' @ [newline]) [] = Inr ''P''
   \<and> fst (Write sample_MarshalIndent ''users'' ''..'' ''P'' demo_world) = None
   \<and> Read sample_Unmarshal ''users'' ''..'' []
        (snd (Write sample_MarshalIndent ''users'' ''..'' ''P'' demo_world))
      = Inl (PathError ENOENT)"
  by code_simp

text \<open>
  C3, as amended. Let the collection \<^verbatim>\<open>c\<close> be a non-empty relative path (it does not
  start with the separator) and let the last path element of the resource \<^verbatim>\<open>r\<close> be an
  ordinary name (not empty, not \<^verbatim>\<open>.\<close> or \<^verbatim>\<open>..\<close>); write \<^verbatim>\<open>P\<close> for
  \<^verbatim>\<open>filepath.Join(root, c, r)\<close>. Suppose that \<^verbatim>\<open>os.Stat\<close> reports that \<^verbatim>\<open>P\<close> does not
  exist, that \<^verbatim>\<open>P.json\<close> is a regular file, and that \<^verbatim>\<open>os.Stat\<close> reports that
  \<^verbatim>\<open>P.json.json\<close> does not exist. With the bare name, \<^verbatim>\<open>Delete(c, r)\<close> returns no error
  and \<^verbatim>\<open>P.json\<close> no longer exists, and \<^verbatim>\<open>Read(c, r, &out)\<close> returns what the decoder
  returns on the bytes of the file. With the name that already carries the suffix, the
  probe of \<^verbatim>\<open>stat\<close> finds the file, but both operations then append \<^verbatim>\<open>.json\<close> once
  more: \<^verbatim>\<open>Delete(c, r.json)\<close> returns no error and leaves the file system as it was (the
  record stays), and \<^verbatim>\<open>Read(c, r.json, &out)\<close> fails with the not-exist error of
  \<^verbatim>\<open>P.json.json\<close>.
\<close>

theorem Delete_Read_bare_name_only:
  assumes c: "c \<noteq> []" "\<not> rooted c" and r: "ordinary (last (splitc r))"
    and bare: "os_Stat (disk w) (record_path (driver w) c r) = Inl ENOENT"
    and rec: "os_ReadFile (disk w) (record_path (driver w) c r @ ''.json'') = Inr b"
    and none: "os_Stat (disk w) (record_path (driver w) c r @ ''.json.json'') = Inl ENOENT"
  shows "fst (Delete c r w) = None
       \<and> os_Stat (disk (snd (Delete c r w))) (record_path (driver w) c r @ ''.json'') = Inl ENOENT
       \<and> Read U c r out w = U b out
       \<and> fst (Delete c (r @ ''.json'') w) = None
       \<and> disk (snd (Delete c (r @ ''.json'') w)) = disk w
       \<and> Read U c (r @ ''.json'') out w = Inl (PathError ENOENT)"
proof -
  let ?R = "record_path (driver w) c r"
  have rne: "r \<noteq> []" using r by (auto simp: ordinary_def)
  have D1: "Delete_dir (driver w) c r = ?R" using c by (rule Delete_dir_record_path)
  have S: "record_path (driver w) c (r @ ''.json'') = ?R @ ''.json''"
    using c(1) r json_nosep by (rule record_path_suffix)
  have D2: "Delete_dir (driver w) c (r @ ''.json'') = ?R @ ''.json''"
    using Delete_dir_record_path [OF c, of "driver w" "r @ ''.json''"] S by simp
  have o: "ordinary (last (splitc (Delete_dir (driver w) c r)))"
    unfolding D1 using record_path_last [OF c(1) r] r by simp
  have none': "os_Stat (disk w) ((?R @ ''.json'') @ ''.json'') = Inl ENOENT"
    using none by simp
  note a = Delete_regular_json [OF o, unfolded D1, OF bare rec]
  note b = Delete_suffixed_noop [of w c "r @ ''.json''", unfolded D2, OF rec none']
  have "Read U c r out w = U b out" using c(1) rne rec by (rule Read_found)
  moreover have "Read U c (r @ ''.json'') out w = Inl (PathError ENOENT)"
    using c(1) none' by (intro Read_missing_json) (simp_all add: S)
  ultimately show ?thesis using a b by simp
qed

theorem Delete_Read_bare_name_only_witness:
  "''users'' \<noteq> [] \<and> \<not> rooted ''users'' \<and> ordinary (last (splitc ''Ashlie''))
   \<and> os_Stat (disk demo_world) ''db/users/Ashlie'' = Inl ENOENT
   \<and> os_ReadFile (disk demo_world) ''db/users/Ashlie.json'' = Inr (quoted ''Ashlie'')
   \<and> os_Stat (disk demo_world) ''db/users/Ashlie.json.json'' = Inl ENOENT
   \<and> fst (Delete ''users'' ''Ashlie'' demo_world) = None
   \<and> os_Stat (disk (snd (Delete ''users'' ''Ashlie'' demo_world))) ''db/users/Ashlie.json''
       = Inl ENOENT
   \<and> Read sample_Unmarshal ''users'' ''Ashlie'' [] demo_world = Inr ''Ashlie''
   \<and> fst (Delete ''users'' ''Ashlie.json'' demo_world) = None
   \<and> disk (snd (Delete ''users'' ''Ashlie.json'' demo_world)) = disk demo_world
   \<and> Read sample_Unmarshal ''users'' ''Ashlie.json'' [] demo_world = Inl (PathError ENOENT)"
proof -
  have p: "record_path (driver demo_world) ''users'' ''Ashlie'' = ''db/users/Ashlie''"
    by code_simp
  have h: "''users'' \<noteq> []" "\<not> rooted ''users''" "ordinary (last (splitc ''Ashlie''))"
    "os_Stat (disk demo_world) (record_path (driver demo_world) ''users'' ''Ashlie'') = Inl ENOENT"
    "os_ReadFile (disk demo_world) (record_path (driver demo_world) ''users'' ''Ashlie'' @ ''.json'')
       = Inr (quoted ''Ashlie'')"
    "os_Stat (disk demo_world) (record_path (driver demo_world) ''users'' ''Ashlie'' @ ''.json.json'')
       = Inl ENOENT"
    by code_simp+
  have u: "sample_Unmarshal (quoted ''Ashlie'') [] = Inr ''Ashlie''" by code_simp
  note res = Delete_Read_bare_name_only [of "''users''" "''Ashlie''" demo_world "quoted ''Ashlie''"
      sample_Unmarshal "[]", OF h, unfolded p u, simplified]
  have k: "os_Stat (disk demo_world) ''db/users/Ashlie'' = Inl ENOENT"
    "os_ReadFile (disk demo_world) ''db/users/Ashlie.json'' = Inr (quoted ''Ashlie'')"
    "os_Stat (disk demo_world) ''db/users/Ashlie.json.json'' = Inl ENOENT"
    by code_simp+
  from res h(1-3) k show ?thesis by blast
qed

text \<open>
  C3, as stated, fails on the record \<^verbatim>\<open>db/users/Ashlie.json\<close>: the two ways of naming
  it do not behave alike. \<^verbatim>\<open>Delete("users", "Ashlie")\<close> removes the file;
  \<^verbatim>\<open>Delete("users", "Ashlie.json")\<close> also returns no error, and the file is still
  there. \<^verbatim>\<open>Read\<close> succeeds with the bare name and fails with the suffixed one.
\<close>

theorem Delete_Read_suffixed_name_counterexample:
  "os_ReadFile (disk demo_world) ''db/users/Ashlie.json'' = Inr (quoted ''Ashlie'')
   \<and> fst (Delete ''users'' ''Ashlie'' demo_world) = None
   \<and> file_bytes (disk (snd (Delete ''users'' ''Ashlie'' demo_world))) ''db/users/Ashlie.json''
       = None
   \<and> fst (Delete ''users'' ''Ashlie.json'' demo_world) = None
   \<and> file_bytes (disk (snd (Delete ''users'' ''Ashlie.json'' demo_world))) ''db/users/Ashlie.json''
       = Some (quoted ''Ashlie'')
   \<and> Read sample_Unmarshal ''users'' ''Ashlie'' [] demo_world = Inr ''Ashlie''
   \<and> Read sample_Unmarshal ''users'' ''Ashlie.json'' [] demo_world = Inl (PathError ENOENT)"
  by code_simp

text \<open>
  C7, as amended. When neither probe of \<^verbatim>\<open>stat\<close> finds the path (\<^verbatim>\<open>os.Stat\<close> fails on
  the path that \<^verbatim>\<open>Delete\<close> joins, \<^verbatim>\<open>filepath.Join(root, filepath.Join(c, r))\<close>, and on
  the same path with \<^verbatim>\<open>.json\<close>), \<^verbatim>\<open>Delete(c, r)\<close> fails with its not-found error and
  the file system is unchanged. The error of \<^verbatim>\<open>Read(c, r, &out)\<close> depends on the names:
  with non-empty names, whenever \<^verbatim>\<open>os.Stat\<close> fails on \<^verbatim>\<open>filepath.Join(root, c, r)\<close> with
  \<^verbatim>\<open>.json\<close> appended, \<^verbatim>\<open>Read\<close> returns the error of that path, which is the not-exist
  error when that path is reported as not existing; with an empty collection, and with
  a non-empty collection and an empty resource, \<^verbatim>\<open>Read\<close> returns its validation error.
  The two operations join the same path when the collection is a non-empty relative
  path.
\<close>

theorem Delete_Read_missing_paths:
  "(isl (os_Stat (disk w) (Delete_dir (driver w) c r))
    \<and> isl (os_Stat (disk w) (Delete_dir (driver w) c r @ ''.json''))
    \<longrightarrow> fst (Delete c r w)
          = Some (Errorf (''unable to find file/directory name '' @ Delete_path c r))
        \<and> disk (snd (Delete c r w)) = disk w)
   \<and> (c \<noteq> [] \<and> r \<noteq> []
      \<and> os_Stat (disk w) (record_path (driver w) c r @ ''.json'') = Inl e
      \<longrightarrow> Read Unmarshal c r out w = Inl (PathError e))
   \<and> (c = [] \<longrightarrow>
        Read Unmarshal c r out w = Inl (Errorf ''Missing collection - no place to read record!''))
   \<and> (c \<noteq> [] \<and> r = [] \<longrightarrow>
        Read Unmarshal c r out w
          = Inl (Errorf ''Missing resource - unable to read record (no name)''))
   \<and> (c \<noteq> [] \<and> \<not> rooted c \<longrightarrow> Delete_dir (driver w) c r = record_path (driver w) c r)"
  using Delete_not_found [of w c r] Read_missing_json [of c r w e Unmarshal out]
    Delete_dir_record_path [of c "driver w" r] Read_empty_name(1) [where U = Unmarshal]
    Read_empty_name(2) [where U = Unmarshal]
  by simp

theorem Delete_Read_missing_paths_witness:
  "isl (os_Stat (disk demo_world) ''db/users/Sam'')
   \<and> os_Stat (disk demo_world) ''db/users/Sam.json'' = Inl ENOENT
   \<and> fst (Delete ''users'' ''Sam'' demo_world)
       = Some (Errorf ''unable to find file/directory name users/Sam'')
   \<and> disk (snd (Delete ''users'' ''Sam'' demo_world)) = disk demo_world
   \<and> Read sample_Unmarshal ''users'' ''Sam'' [] demo_world = Inl (PathError ENOENT)
   \<and> os_Stat (disk demo_world) ''db/users/John.json/x.json'' = Inl ENOTDIR
   \<and> Read sample_Unmarshal ''users/John.json'' ''x'' [] demo_world = Inl (PathError ENOTDIR)
   \<and> Read sample_Unmarshal [] ''Sam'' [] demo_world
       = Inl (Errorf ''Missing collection - no place to read record!'')
   \<and> Read sample_Unmarshal ''users'' [] [] demo_world
       = Inl (Errorf ''Missing resource - unable to read record (no name)'')
   \<and> \<not> rooted ''users''
   \<and> Delete_dir (driver demo_world) ''users'' ''Sam'' = ''db/users/Sam''"
proof -
  have p: "Delete_dir (driver demo_world) ''users'' ''Sam'' = ''db/users/Sam''"
    "record_path (driver demo_world) ''users'' ''Sam'' = ''db/users/Sam''"
    "Delete_path ''users'' ''Sam'' = ''users/Sam''"
    "record_path (driver demo_world) ''users/John.json'' ''x'' = ''db/users/John.json/x''"
    by code_simp+
  have k: "isl (os_Stat (disk demo_world) ''db/users/Sam'')"
    "os_Stat (disk demo_world) ''db/users/Sam.json'' = Inl ENOENT"
    "os_Stat (disk demo_world) ''db/users/John.json/x.json'' = Inl ENOTDIR"
    "\<not> rooted ''users''"
    by code_simp+
  note a = Delete_Read_missing_paths [of demo_world "''users''" "''Sam''" ENOENT
      sample_Unmarshal "[]", unfolded p]
  note b = Delete_Read_missing_paths [of demo_world "''users/John.json''" "''x''" ENOTDIR
      sample_Unmarshal "[]", unfolded p]
  note c = Delete_Read_missing_paths [of demo_world "[]" "''Sam''" ENOENT sample_Unmarshal "[]"]
  note d = Delete_Read_missing_paths [of demo_world "''users''" "[]" ENOENT sample_Unmarshal "[]"]
  from a b c d k p(1) show ?thesis by simp
qed

text \<open>
  C7, as stated, fails for \<^verbatim>\<open>Read\<close>. In the store below neither \<^verbatim>\<open>db/nosuch\<close> nor
  \<^verbatim>\<open>db/nosuch.json\<close> exists, and \<^verbatim>\<open>Read("nosuch", "", &out)\<close> returns the validation
  error for the missing resource name. And \<^verbatim>\<open>db/users/John.json\<close> is a regular file, so
  neither \<^verbatim>\<open>db/users/John.json/x\<close> nor that path with \<^verbatim>\<open>.json\<close> exists: \<^verbatim>\<open>os.Stat\<close>
  fails on both with \<^verbatim>\<open>ENOTDIR\<close>, which \<^verbatim>\<open>os.IsNotExist\<close> does not accept, and
  \<^verbatim>\<open>Read("users/John.json", "x", &out)\<close> returns that error, not a not-found error.
\<close>

theorem Read_not_found_other_errors_counterexample:
  "isl (os_Stat (disk demo_world) (record_path (driver demo_world) ''nosuch'' []))
   \<and> isl (os_Stat (disk demo_world) (record_path (driver demo_world) ''nosuch'' [] @ ''.json''))
   \<and> Read sample_Unmarshal ''nosuch'' [] [] demo_world
       = Inl (Errorf ''Missing resource - unable to read record (no name)'')
   \<and> os_Stat (disk demo_world) ''db/users/John.json'' = Inr (File (quoted ''John''))
   \<and> os_Stat (disk demo_world) (record_path (driver demo_world) ''users/John.json'' ''x'')
       = Inl ENOTDIR
   \<and> os_Stat (disk demo_world) (record_path (driver demo_world) ''users/John.json'' ''x'' @ ''.json'')
       = Inl ENOTDIR
   \<and> Read sample_Unmarshal ''users/John.json'' ''x'' [] demo_world = Inl (PathError ENOTDIR)"
  by code_simp

text \<open>
  C5, as amended. Let the collection \<^verbatim>\<open>c\<close> be a relative path (it does not start with the
  separator) such that the collection directory \<^verbatim>\<open>filepath.Join(root, c)\<close> exists, is a
  directory, and its cleaned path ends in an ordinary name (the path is not \<^verbatim>\<open>.\<close> or
  the root of the file system and does not end in \<^verbatim>\<open>..\<close>). Then \<^verbatim>\<open>Delete(c, "")\<close> joins
  exactly the path of the collection directory, returns no error, and afterwards neither
  the directory nor anything below it exists; every regular file outside it is as before.
\<close>

theorem Delete_empty_resource_removes_collection:
  assumes rel: "\<not> rooted c"
    and name: "ordinary (last (splitc (Join [dir (driver w), c])))"
    and ex: "os_Stat (disk w) (Join [dir (driver w), c]) = Inr (Dir es)"
  shows "Delete_dir (driver w) c [] = Join [dir (driver w), c]
       \<and> fst (Delete c [] w) = None
       \<and> (\<forall>q. lookup (tree (disk (snd (Delete c [] w))))
                 (resolve (cwd (disk w)) (Join [dir (driver w), c]) @ q) = Inl ENOENT)
       \<and> (\<forall>p. \<not> prefix (resolve (cwd (disk w)) (Join [dir (driver w), c])) p \<longrightarrow>
               file_at (tree (disk (snd (Delete c [] w)))) p = file_at (tree (disk w)) p)"
proof -
  have T: "Delete_dir (driver w) c [] = Join [dir (driver w), c]"
    using rel by (rule Delete_dir_collection_any)
  have o: "ordinary (last (splitc (Delete_dir (driver w) c [])))"
    unfolding T using name .
  from Delete_directory [OF o, unfolded T, OF ex] T show ?thesis by blast
qed

theorem Delete_empty_resource_removes_collection_witness:
  "\<not> rooted ''users'' \<and> ordinary (last (splitc ''db/users''))
   \<and> os_Stat (disk demo_world) ''db/users''
       = Inr (Dir demo_users)
   \<and> Delete_dir (driver demo_world) ''users'' [] = ''db/users''
   \<and> fst (Delete ''users'' [] demo_world) = None
   \<and> os_Stat (disk (snd (Delete ''users'' [] demo_world))) ''db/users'' = Inl ENOENT
   \<and> os_Stat (disk (snd (Delete ''users'' [] demo_world))) ''db/users/John.json'' = Inl ENOENT
   \<and> file_bytes (disk (snd (Delete ''users'' [] demo_world))) ''db/staff/Paul.json''
       = Some (quoted ''Paul'')"
proof -
  have p: "Join [dir (driver demo_world), ''users''] = ''db/users''" by code_simp
  have h: "\<not> rooted ''users''"
    "ordinary (last (splitc (Join [dir (driver demo_world), ''users''])))"
    "os_Stat (disk demo_world) (Join [dir (driver demo_world), ''users''])
       = Inr (Dir demo_users)"
    by code_simp+
  note res = Delete_empty_resource_removes_collection [OF h]
  have f: "fst (Delete ''users'' [] demo_world) = None" using res by simp
  have t: "Delete_dir (driver demo_world) ''users'' [] = ''db/users''" using res p by simp
  have a: "resolve (cwd (disk demo_world)) (Join [dir (driver demo_world), ''users''])
         = [''srv'', ''db'', ''users'']"
    by code_simp
  have l: "lookup (tree (disk (snd (Delete ''users'' [] demo_world)))) ([''srv'', ''db'', ''users''] @ q)
         = Inl ENOENT" for q
    using res unfolding a by blast
  have cw: "cwd (disk (snd (Delete ''users'' [] demo_world))) = [''srv'']" by code_simp
  have r1: "resolve [''srv''] ''db/users'' = [''srv'', ''db'', ''users''] @ []"
    and r2: "resolve [''srv''] ''db/users/John.json'' = [''srv'', ''db'', ''users''] @ [''John.json'']"
    by code_simp+
  have s1: "os_Stat (disk (snd (Delete ''users'' [] demo_world))) ''db/users'' = Inl ENOENT"
    unfolding os_Stat_def cw r1 l by simp
  have s2: "os_Stat (disk (snd (Delete ''users'' [] demo_world))) ''db/users/John.json'' = Inl ENOENT"
    unfolding os_Stat_def cw r2 l by simp
  have k: "file_bytes (disk (snd (Delete ''users'' [] demo_world))) ''db/staff/Paul.json''
       = Some (quoted ''Paul'')"
    by code_simp
  from h(1) h(2,3) [unfolded p] t f s1 s2 k show ?thesis by blast
qed

text \<open>
  C5, as stated, fails for the collection name \<^verbatim>\<open>..\<close> in the store below, whose root is
  \<^verbatim>\<open>db\<close>: the collection directory \<^verbatim>\<open>filepath.Join("db", "..")\<close> is \<^verbatim>\<open>.\<close>, an existing
  directory, and \<^verbatim>\<open>os.RemoveAll(".")\<close> refuses it, so \<^verbatim>\<open>Delete("..", "")\<close> fails and
  removes nothing. It also fails for the rooted name \<^verbatim>\<open>/../users\<close>: the collection
  directory \<^verbatim>\<open>filepath.Join("db", "/../users")\<close>, where \<^verbatim>\<open>Write\<close> would put its records,
  is \<^verbatim>\<open>users\<close>, but \<^verbatim>\<open>Delete\<close> cleans the name before it joins the root and removes
  \<^verbatim>\<open>db/users\<close>.
\<close>

theorem Delete_empty_resource_dotdot_counterexample:
  "\<not> rooted ''..''
   \<and> Join [dir (driver demo_world), ''..''] = ''.''
   \<and> os_Stat (disk demo_world) ''.'' = Inr (Dir [(''db'', Dir demo_db)])
   \<and> Delete_dir (driver demo_world) ''..'' [] = ''.''
   \<and> fst (Delete ''..'' [] demo_world) = Some (PathError EINVAL)
   \<and> disk (snd (Delete ''..'' [] demo_world)) = disk demo_world
   \<and> rooted ''/../users''
   \<and> Join [dir (driver demo_world), ''/../users''] = ''users''
   \<and> Delete_dir (driver demo_world) ''/../users'' [] = ''db/users''
   \<and> fst (Delete ''/../users'' [] demo_world) = None
   \<and> os_Stat (disk (snd (Delete ''/../users'' [] demo_world))) ''db/users'' = Inl ENOENT"
  by code_simp

text \<open>
  C10, as amended. \<^verbatim>\<open>Delete\<close> checks neither argument for emptiness. When the root
  path of the driver is cleaned (as \<^verbatim>\<open>New\<close> leaves it), ends in an ordinary name and
  names an existing directory, \<^verbatim>\<open>Delete("", "")\<close> joins exactly the root path, returns
  no error, and afterwards neither the root directory nor anything below it exists.
\<close>

theorem Delete_empty_names_removes_root:
  assumes clean: "Clean (dir (driver w)) = dir (driver w)"
    and name: "ordinary (last (splitc (dir (driver w))))"
    and ex: "os_Stat (disk w) (dir (driver w)) = Inr (Dir es)"
  shows "Delete_dir (driver w) [] [] = dir (driver w)
       \<and> fst (Delete [] [] w) = None
       \<and> (\<forall>q. lookup (tree (disk (snd (Delete [] [] w))))
                 (resolve (cwd (disk w)) (dir (driver w)) @ q) = Inl ENOENT)"
proof -
  have T: "Delete_dir (driver w) [] [] = dir (driver w)" using clean by (rule Delete_dir_root)
  have o: "ordinary (last (splitc (Delete_dir (driver w) [] [])))"
    unfolding T by (rule name)
  from Delete_directory(1,3) [OF o, unfolded T, OF ex] T show ?thesis by blast
qed

theorem Delete_empty_names_removes_root_witness:
  "Clean ''db'' = ''db'' \<and> ordinary (last (splitc ''db''))
   \<and> os_Stat (disk demo_world) ''db'' = Inr (Dir demo_db)
   \<and> fst (Delete [] [] demo_world) = None
   \<and> tree (disk (snd (Delete [] [] demo_world))) = Dir [(''srv'', Dir [])]
   \<and> lookup (tree (disk (snd (Delete [] [] demo_world)))) [''srv'', ''db'', ''users''] = Inl ENOENT"
proof -
  have d: "dir (driver demo_world) = ''db''" by code_simp
  have es: "os_Stat (disk demo_world) ''db'' = Inr (Dir demo_db)" by code_simp
  have h: "Clean ''db'' = ''db''" "ordinary (last (splitc ''db''))" by code_simp+
  note res = Delete_empty_names_removes_root [of demo_world demo_db, unfolded d, OF h es]
  have a: "resolve (cwd (disk demo_world)) ''db'' = [''srv'', ''db'']" by code_simp
  have "lookup (tree (disk (snd (Delete [] [] demo_world)))) ([''srv'', ''db''] @ [''users'']) = Inl ENOENT"
    using res unfolding a by blast
  moreover have "tree (disk (snd (Delete [] [] demo_world))) = Dir [(''srv'', Dir [])]"
    by code_simp
  ultimately show ?thesis using res h es by simp
qed

text \<open>
  C10, as stated, fails for the driver that \<^verbatim>\<open>main\<close> makes with \<^verbatim>\<open>New("./", nil)\<close>:
  its root path is \<^verbatim>\<open>.\<close>, an existing directory, and \<^verbatim>\<open>os.RemoveAll(".")\<close> refuses
  with \<^verbatim>\<open>EINVAL\<close>. \<^verbatim>\<open>Delete("", "")\<close> returns that error and removes nothing.
\<close>

theorem Delete_empty_names_dot_root_counterexample:
  "dir (fst (New ''./'' demo_fs)) = ''.''
   \<and> os_Stat (disk main_world) (dir (driver main_world)) = Inr (Dir [(''db'', Dir demo_db)])
   \<and> fst (Delete [] [] main_world) = Some (PathError EINVAL)
   \<and> disk (snd (Delete [] [] main_world)) = disk main_world"
  by code_simp

text \<open>
  C8. For a non-empty collection name whose directory exists (its entries having
  ordinary names, as the entries of a directory have), \<^verbatim>\<open>ReadAll\<close> returns a list of
  strings exactly when every entry of the directory is a regular file, and the list then
  holds the full content of every entry, in the order of \<^verbatim>\<open>os.ReadDir\<close>. As soon as one
  entry cannot be read, the result is the error of that read and no strings at all.
\<close>

theorem ReadAll_all_or_error:
  assumes c: "c \<noteq> []"
    and ex: "os_Stat (disk w) (Join [dir (driver w), c]) = Inr (Dir es)"
    and names: "\<forall>name\<in>set (map fst es). ordinary name"
  shows "(ReadAll c w = Inr rs \<longleftrightarrow>
            list_all2 (\<lambda>name b. map_of es name = Some (File b)) (sort (map fst es)) rs)
       \<and> ((\<exists>name\<in>set (map fst es). \<forall>b. map_of es name \<noteq> Some (File b)) \<longrightarrow>
            (\<exists>n. ReadAll c w = Inl (PathError n)))"
proof -
  let ?D = "Join [dir (driver w), c]"
  have R: "ReadAll c w = read_records (disk w) ?D (sort (map fst es)) []"
    using c ex by (rule ReadAll_steps)
  have eq: "list_all2 (\<lambda>name b. os_ReadFile (disk w) (Join [?D, name]) = Inr b) (sort (map fst es)) bs
          = list_all2 (\<lambda>name b. map_of es name = Some (File b)) (sort (map fst es)) bs" for bs
    using names by (intro list_all2_cong_set os_ReadFile_child_file [OF ex]) auto
  have iff: "ReadAll c w = Inr bs \<longleftrightarrow>
      list_all2 (\<lambda>name b. map_of es name = Some (File b)) (sort (map fst es)) bs" for bs
    unfolding R read_records_Inr eq [symmetric] by simp
  have "\<exists>n. ReadAll c w = Inl (PathError n)"
    if "\<exists>name\<in>set (map fst es). \<forall>b. map_of es name \<noteq> Some (File b)"
  proof (cases "ReadAll c w")
    case (Inl e)
    then show ?thesis using read_records_Inl [of "disk w" ?D "sort (map fst es)" "[]" e] R by auto
  next
    case (Inr bs)
    then have "list_all2 (\<lambda>name b. map_of es name = Some (File b)) (sort (map fst es)) bs"
      by (simp add: iff)
    then have "\<forall>name\<in>set (sort (map fst es)). \<exists>b. map_of es name = Some (File b)"
      by (blast dest: list_all2_left_ex)
    with that show ?thesis by auto
  qed
  with iff show ?thesis by blast
qed

theorem ReadAll_all_or_error_witness:
  "''users'' \<noteq> [] \<and> os_Stat (disk demo_world) ''db/users'' = Inr (Dir demo_users)
   \<and> list_all ordinary (map fst demo_users)
   \<and> ReadAll ''users'' demo_world = Inr [quoted ''Ashlie'', quoted ''John'']
   \<and> os_Stat (disk demo_world) ''db/staff'' = Inr (Dir demo_staff)
   \<and> list_all ordinary (map fst demo_staff)
   \<and> map_of demo_staff ''old'' = Some (Dir [])
   \<and> ReadAll ''staff'' demo_world = Inl (PathError EISDIR)"
proof -
  have p: "Join [dir (driver demo_world), ''users''] = ''db/users''"
    "Join [dir (driver demo_world), ''staff''] = ''db/staff''"
    by code_simp+
  have u: "os_Stat (disk demo_world) ''db/users'' = Inr (Dir demo_users)"
    and s: "os_Stat (disk demo_world) ''db/staff'' = Inr (Dir demo_staff)"
    and ou: "list_all ordinary (map fst demo_users)"
    and os: "list_all ordinary (map fst demo_staff)"
    and m: "map_of demo_staff ''old'' = Some (Dir [])"
    and n: "''old'' \<in> set (map fst demo_staff)"
    and srt: "sort (map fst demo_users) = [''Ashlie.json'', ''John.json'']"
    and f: "map_of demo_users ''Ashlie.json'' = Some (File (quoted ''Ashlie''))"
      "map_of demo_users ''John.json'' = Some (File (quoted ''John''))"
    and e: "ReadAll ''staff'' demo_world = Inl (PathError EISDIR)"
    by code_simp+
  have names_u: "\<forall>name\<in>set (map fst demo_users). ordinary name"
    and names_s: "\<forall>name\<in>set (map fst demo_staff). ordinary name"
    using ou os by (simp_all add: list_all_iff)
  have bad: "\<exists>name\<in>set (map fst demo_staff). \<forall>b. map_of demo_staff name \<noteq> Some (File b)"
    using n m by (intro bexI [of _ "''old''"]) simp_all
  have nu: "''users'' \<noteq> []" and ns: "''staff'' \<noteq> []" by simp_all
  note U = ReadAll_all_or_error [of "''users''" demo_world demo_users
      "[quoted ''Ashlie'', quoted ''John'']", unfolded p, OF nu u names_u]
  note S = ReadAll_all_or_error [of "''staff''" demo_world demo_staff "[]", unfolded p,
      OF ns s names_s]
  have "ReadAll ''users'' demo_world = Inr [quoted ''Ashlie'', quoted ''John'']"
    using U by (simp add: srt f)
  moreover have "\<exists>n. ReadAll ''staff'' demo_world = Inl (PathError n)"
    using S bad by blast
  ultimately show ?thesis using u s ou os m e by simp
qed

text \<open>
  C4. The body of \<^verbatim>\<open>getOrCreateMutex\<close> takes no lock: the field \<^verbatim>\<open>mutex\<close> of the
  driver is never used. On a driver with no lock registered for \<^verbatim>\<open>users\<close>, let two
  goroutines call \<^verbatim>\<open>getOrCreateMutex("users")\<close> and take their steps in turn. Both
  look the name up before either stores, both allocate, and they return two different
  locks (the first is overwritten in the map by the second). One after the other, the
  two calls return the same lock.
\<close>

theorem getOrCreateMutex_unguarded_race:
  "mutexes (driver demo_world) ''users'' = None
   \<and> fst (run ''users'' ''users'' [True, False, True, False, True, False]
           (AtLookup, AtLookup, demo_world)) = Returned 0
   \<and> fst (snd (run ''users'' ''users'' [True, False, True, False, True, False]
           (AtLookup, AtLookup, demo_world))) = Returned 1
   \<and> mutexes (driver (snd (snd (run ''users'' ''users'' [True, False, True, False, True, False]
           (AtLookup, AtLookup, demo_world))))) ''users'' = Some 1
   \<and> fst (run ''users'' ''users'' [True, True, True, False, False, False]
           (AtLookup, AtLookup, demo_world)) = Returned 0
   \<and> fst (snd (run ''users'' ''users'' [True, True, True, False, False, False]
           (AtLookup, AtLookup, demo_world))) = Returned 0"
  by code_simp

end
